theory Spec2Isabelle
  imports Main "HOL-Library.AList"
begin

section \<open>JavaScript values\<close>

text \<open>
  A value produced by \<^verbatim>\<open>JSON.parse\<close>. Numbers are the integers (request ids and
  error codes); an object is its list of own properties in insertion order.
  \<^verbatim>\<open>undefined\<close> is not a JSON value: a property read that yields it is \<open>None\<close>.
\<close>

datatype json =
    JNull
  | JBool bool
  | JNum int
  | JStr string
  | JArr "json list"
  | JObj "(string \<times> json) list"

text \<open>The wire text of a frame: a JavaScript string as its sequence of UTF-16 code units.\<close>

type_synonym jsstring = "nat list"

text \<open>JavaScript truthiness of the result of a property read (\<^verbatim>\<open>!x\<close> is its negation).\<close>

fun truthy :: "json option \<Rightarrow> bool" where
  "truthy None = False"
| "truthy (Some JNull) = False"
| "truthy (Some (JBool b)) = b"
| "truthy (Some (JNum n)) = (n \<noteq> 0)"
| "truthy (Some (JStr s)) = (s \<noteq> [])"
| "truthy (Some (JArr xs)) = True"
| "truthy (Some (JObj kvs)) = True"

text \<open>
  \<^verbatim>\<open>v.k\<close> for a value \<open>v\<close> that is neither \<^verbatim>\<open>null\<close> nor \<^verbatim>\<open>undefined\<close> and one of the
  property names the program reads (\<^verbatim>\<open>jsonrpc\<close>, \<^verbatim>\<open>id\<close>, \<^verbatim>\<open>error\<close>, \<^verbatim>\<open>result\<close>, \<^verbatim>\<open>code\<close>,
  \<^verbatim>\<open>message\<close>, \<^verbatim>\<open>tools\<close>, \<^verbatim>\<open>resources\<close>, \<^verbatim>\<open>prompts\<close>): only an object parsed from JSON
  can own one; arrays and primitives yield \<^verbatim>\<open>undefined\<close>.
\<close>

fun getProp :: "json \<Rightarrow> string \<Rightarrow> json option" where
  "getProp (JObj kvs) k = map_of kvs k"
| "getProp _ k = None"

section \<open>JSON-RPC utilities (utils/jsonrpc)\<close>

text \<open>A request id is \<^verbatim>\<open>string | number\<close>; these are the keys of the pending table.\<close>

datatype rid = NumId int | StrId string

record JsonRpcRequest =
  req_jsonrpc :: string
  req_method :: string
  req_params :: "json option"
  req_id :: rid

text \<open>Every \<^verbatim>\<open>Error\<close> the program throws, or rejects a promise with.\<close>

datatype error =
    TransportNotConnected
  | RequestTimedOut rid nat
  | TransportDisconnected
  | JsonRpcError "json option" "json option"
  | SyntaxError
  | InvalidResponseNotAnObject
  | InvalidResponseJsonrpcField
  | InvalidResponseMissingId
  | TypeError
  | IOError string
  | ServerNotFound string
  | CallFailed string "json option"
  | InvalidServerConfiguration
  | UnsupportedTransportType string
  | TransportRequiresUrl
  | TransportRequiresCommand
  | NoServersConfigured
  | FailedToLoadConfiguration
  | FailedToConnectSse string "json option" "json option"
  | SseConnectionError json

text \<open>\<^verbatim>\<open>generateRequestId\<close>: \<^verbatim>\<open>return ++requestIdCounter\<close>, on the module's counter.\<close>

definition generateRequestId :: "nat \<Rightarrow> nat \<times> nat" where
  "generateRequestId requestIdCounter = (Suc requestIdCounter, Suc requestIdCounter)"

definition createRequest :: "string \<Rightarrow> json option \<Rightarrow> nat \<Rightarrow> JsonRpcRequest \<times> nat" where
  "createRequest method params requestIdCounter =
     (let (i, counter') = generateRequestId requestIdCounter
      in (\<lparr>req_jsonrpc = ''2.0'', req_method = method, req_params = params,
            req_id = NumId (int i)\<rparr>, counter'))"

text \<open>\<^verbatim>\<open>validateResponse\<close>: the three checks in the order of the source.\<close>

fun validateResponse :: "json \<Rightarrow> error + json" where
  "validateResponse JNull = Inl InvalidResponseNotAnObject"
| "validateResponse (JBool b) = Inl InvalidResponseNotAnObject"
| "validateResponse (JNum n) = Inl InvalidResponseNotAnObject"
| "validateResponse (JStr s) = Inl InvalidResponseNotAnObject"
| "validateResponse resp =
     (if getProp resp ''jsonrpc'' \<noteq> Some (JStr ''2.0'') then Inl InvalidResponseJsonrpcField
      else if getProp resp ''id'' = None then Inl InvalidResponseMissingId
      else Inr resp)"

definition isErrorResponse :: "json \<Rightarrow> bool" where
  "isErrorResponse response = (getProp response ''error'' \<noteq> None)"

section \<open>BaseTransport\<close>

text \<open>What a waiter (the promise returned by \<^verbatim>\<open>sendRequest\<close>) is settled with.\<close>

datatype settlement = Resolved json | Rejected error

text \<open>
  The fields of the class are \<open>connected\<close>, \<open>pendingRequests\<close> and \<open>requestTimeout\<close>.
  \<open>pendingRequests\<close> is a JavaScript \<^verbatim>\<open>Map\<close>: an association list in insertion
  order. Each call of \<^verbatim>\<open>sendRequest\<close> creates one promise and one timer; both are named
  by the same handle, taken from \<open>nextHandle\<close>, and the table entry holds that handle
  (its \<^verbatim>\<open>resolve\<close>, \<^verbatim>\<open>reject\<close> and \<^verbatim>\<open>timeout\<close>).

  The remaining fields are the part of the runtime this object's callbacks live in:
  \<open>timers\<close> are the armed timers (handle, the \<^verbatim>\<open>request.id\<close> the callback closed over,
  due time), \<open>sends\<close> the \<^verbatim>\<open>sendMessage\<close> promises still in flight, \<open>settled\<close> every call
  of a \<^verbatim>\<open>resolve\<close> or \<^verbatim>\<open>reject\<close> in order with the time of the call, \<open>console\<close> what
  \<^verbatim>\<open>console.error\<close> printed, and \<open>now\<close> the clock in milliseconds.
\<close>

record transport =
  connected :: bool
  pendingRequests :: "(rid \<times> nat) list"
  requestTimeout :: nat
  timers :: "(nat \<times> rid \<times> nat) list"
  sends :: "(nat \<times> JsonRpcRequest) list"
  nextHandle :: nat
  settled :: "(nat \<times> settlement \<times> nat) list"
  console :: "error list"
  now :: nat

text \<open>
  The field initialisers of the class; a subclass is a record extending \<open>transport\<close>, and
  the methods of the base class work on every extension.
\<close>

definition BaseTransport_new :: transport where
  "BaseTransport_new =
     \<lparr>connected = False, pendingRequests = [], requestTimeout = 30000, timers = [],
      sends = [], nextHandle = 0, settled = [], console = [], now = 0\<rparr>"

definition clearTimeout :: "nat \<Rightarrow> 'a transport_scheme \<Rightarrow> 'a transport_scheme" where
  "clearTimeout h s = s\<lparr>timers := filter (\<lambda>t. fst t \<noteq> h) (timers s)\<rparr>"

text \<open>A call of the \<^verbatim>\<open>resolve\<close> or \<^verbatim>\<open>reject\<close> of waiter \<open>h\<close>.\<close>

definition settle :: "nat \<Rightarrow> settlement \<Rightarrow> 'a transport_scheme \<Rightarrow> 'a transport_scheme" where
  "settle h r s = s\<lparr>settled := settled s @ [(h, r, now s)]\<rparr>"

definition isConnected :: "'a transport_scheme \<Rightarrow> bool" where
  "isConnected s = connected s"

text \<open>
  \<^verbatim>\<open>sendRequest\<close> up to the point where the caller is suspended: it throws when the
  transport is not connected; otherwise it arms the timer, stores the table entry and
  starts \<^verbatim>\<open>sendMessage\<close>. The result is the handle of the waiter.
\<close>

definition sendRequest ::
  "JsonRpcRequest \<Rightarrow> 'a transport_scheme \<Rightarrow> error + (nat \<times> 'a transport_scheme)" where
  "sendRequest request s =
     (if \<not> connected s then Inl TransportNotConnected
      else
        let h = nextHandle s;
            s1 = s\<lparr>nextHandle := Suc h,
                   timers := timers s @ [(h, req_id request, now s + requestTimeout s)]\<rparr>;
            s2 = s1\<lparr>pendingRequests := AList.update (req_id request) h (pendingRequests s1)\<rparr>;
            s3 = s2\<lparr>sends := sends s2 @ [(h, request)]\<rparr>
        in Inr (h, s3))"

text \<open>The timer callback of waiter \<open>h\<close>, which closed over \<^verbatim>\<open>request.id\<close> = \<open>i\<close>.\<close>

definition timerCallback :: "nat \<Rightarrow> rid \<Rightarrow> 'a transport_scheme \<Rightarrow> 'a transport_scheme" where
  "timerCallback h i s =
     (let s1 = s\<lparr>pendingRequests := AList.delete i (pendingRequests s)\<rparr>
      in settle h (Rejected (RequestTimedOut i (requestTimeout s1))) s1)"

text \<open>
  The clock reaches \<open>t\<close>: every armed timer that is due by then fires, at its due time,
  and is disarmed. The timers stand in the order they were armed, which is the order of
  their due times.
\<close>

fun fireTimers ::
  "(nat \<times> rid \<times> nat) list \<Rightarrow> 'a transport_scheme \<Rightarrow> 'a transport_scheme" where
  "fireTimers [] s = s"
| "fireTimers ((h, i, due) # ts) s =
     fireTimers ts
       (if h \<in> fst ` set (timers s)
        then timerCallback h i (clearTimeout h (s\<lparr>now := max (now s) due\<rparr>))
        else s)"

definition advance :: "nat \<Rightarrow> 'a transport_scheme \<Rightarrow> 'a transport_scheme" where
  "advance t s =
     (let s' = fireTimers (filter (\<lambda>(h, i, due). due \<le> t) (timers s)) s
      in s'\<lparr>now := max (now s') t\<rparr>)"

text \<open>
  The \<^verbatim>\<open>.catch\<close> handler of \<^verbatim>\<open>sendMessage\<close> in \<^verbatim>\<open>sendRequest\<close>, run when the send of
  waiter \<open>h\<close> fails with \<open>e\<close>; a send settles once, so nothing happens when none is in flight.
\<close>

definition sendMessageFailed ::
  "nat \<Rightarrow> error \<Rightarrow> 'a transport_scheme \<Rightarrow> 'a transport_scheme" where
  "sendMessageFailed h e s =
     (case map_of (sends s) h of
        None \<Rightarrow> s
      | Some request \<Rightarrow>
          let s1 = s\<lparr>sends := AList.delete h (sends s)\<rparr>;
              s2 = s1\<lparr>pendingRequests := AList.delete (req_id request) (pendingRequests s1)\<rparr>;
              s3 = clearTimeout h s2
          in settle h (Rejected e) s3)"

definition sendMessageDone :: "nat \<Rightarrow> 'a transport_scheme \<Rightarrow> 'a transport_scheme" where
  "sendMessageDone h s = s\<lparr>sends := AList.delete h (sends s)\<rparr>"

text \<open>
  A \<^verbatim>\<open>Map\<close> compares keys by SameValueZero: the id of a response can equal a key only
  when it is a number or a string.
\<close>

fun key_of :: "json \<Rightarrow> rid option" where
  "key_of (JNum n) = Some (NumId n)"
| "key_of (JStr s) = Some (StrId s)"
| "key_of _ = None"

definition getPending :: "'a transport_scheme \<Rightarrow> json \<Rightarrow> nat option" where
  "getPending s i = (case key_of i of None \<Rightarrow> None | Some k \<Rightarrow> map_of (pendingRequests s) k)"

definition deletePending :: "json \<Rightarrow> 'a transport_scheme \<Rightarrow> 'a transport_scheme" where
  "deletePending i s =
     (case key_of i of
        None \<Rightarrow> s
      | Some k \<Rightarrow> s\<lparr>pendingRequests := AList.delete k (pendingRequests s)\<rparr>)"

text \<open>
  The body of the \<^verbatim>\<open>try\<close> block of \<^verbatim>\<open>handleResponse\<close>: the state it leaves and the
  exception it throws, if any. \<open>parse\<close> is \<^verbatim>\<open>JSON.parse\<close> (\<open>None\<close> when it throws).
  Reading \<^verbatim>\<open>response.error.code\<close> throws a \<^verbatim>\<open>TypeError\<close> when \<^verbatim>\<open>error\<close> is \<^verbatim>\<open>null\<close>.
\<close>

definition handleResponse_try ::
  "(jsstring \<Rightarrow> json option) \<Rightarrow> jsstring \<Rightarrow> 'a transport_scheme \<Rightarrow>
   'a transport_scheme \<times> error option" where
  "handleResponse_try parse data s =
     (case parse data of
        None \<Rightarrow> (s, Some SyntaxError)
      | Some v \<Rightarrow>
          (case validateResponse v of
             Inl e \<Rightarrow> (s, Some e)
           | Inr response \<Rightarrow>
               if \<not> truthy (getProp response ''id'') then (s, None)
               else
                 (case getProp response ''id'' of
                    None \<Rightarrow> (s, None)
                  | Some i \<Rightarrow>
                      (case getPending s i of
                         None \<Rightarrow> (s, None)
                       | Some pending \<Rightarrow>
                           let s1 = clearTimeout pending s;
                               s2 = deletePending i s1
                           in if isErrorResponse response then
                                (case getProp response ''error'' of
                                   None \<Rightarrow> (s2, Some TypeError)
                                 | Some JNull \<Rightarrow> (s2, Some TypeError)
                                 | Some err \<Rightarrow>
                                     (settle pending
                                        (Rejected (JsonRpcError (getProp err ''code'')
                                                                (getProp err ''message''))) s2,
                                      None))
                              else (settle pending (Resolved response) s2, None)))))"

text \<open>\<^verbatim>\<open>handleResponse\<close>: the \<^verbatim>\<open>catch\<close> clause prints the exception and returns.\<close>

definition handleResponse ::
  "(jsstring \<Rightarrow> json option) \<Rightarrow> jsstring \<Rightarrow> 'a transport_scheme \<Rightarrow> 'a transport_scheme" where
  "handleResponse parse data s =
     (case handleResponse_try parse data s of
        (s', None) \<Rightarrow> s'
      | (s', Some e) \<Rightarrow> s'\<lparr>console := console s' @ [e]\<rparr>)"

text \<open>\<^verbatim>\<open>cleanup\<close>: the loop over the table, then \<^verbatim>\<open>clear()\<close> and \<^verbatim>\<open>connected = false\<close>.\<close>

definition cleanup :: "'a transport_scheme \<Rightarrow> 'a transport_scheme" where
  "cleanup s =
     (let s1 = foldl (\<lambda>s' (i, pending).
                        settle pending (Rejected TransportDisconnected) (clearTimeout pending s'))
                     s (pendingRequests s)
      in s1\<lparr>pendingRequests := [], connected := False\<rparr>)"

subsection \<open>The life of a transport as a sequence of events\<close>

text \<open>
  Everything that runs on a transport is one of these: a call of \<^verbatim>\<open>sendRequest\<close>, the
  outcome of a \<^verbatim>\<open>sendMessage\<close>, an inbound frame handed to \<^verbatim>\<open>handleResponse\<close>, a call of
  \<^verbatim>\<open>cleanup\<close>, the clock moving on (armed timers fire), and a subclass's \<^verbatim>\<open>connect\<close>
  setting \<^verbatim>\<open>connected = true\<close>.
\<close>

datatype event =
    SendRequest JsonRpcRequest
  | SendMessageFailed nat error
  | SendMessageDone nat
  | Incoming jsstring
  | Cleanup
  | Advance nat
  | Established

fun step :: "(jsstring \<Rightarrow> json option) \<Rightarrow> 'a transport_scheme \<Rightarrow> event \<Rightarrow> 'a transport_scheme" where
  "step parse s (SendRequest request) =
     (case sendRequest request s of Inl e \<Rightarrow> s | Inr (h, s') \<Rightarrow> s')"
| "step parse s (SendMessageFailed h e) = sendMessageFailed h e s"
| "step parse s (SendMessageDone h) = sendMessageDone h s"
| "step parse s (Incoming data) = handleResponse parse data s"
| "step parse s Cleanup = cleanup s"
| "step parse s (Advance t) = advance t s"
| "step parse s Established = s\<lparr>connected := True\<rparr>"

definition run :: "(jsstring \<Rightarrow> json option) \<Rightarrow> 'a transport_scheme \<Rightarrow> event list \<Rightarrow> 'a transport_scheme" where
  "run parse s es = foldl (step parse) s es"

text \<open>The calls made so far of the \<^verbatim>\<open>resolve\<close> and \<^verbatim>\<open>reject\<close> of waiter \<open>h\<close>.\<close>

definition callsOf :: "nat \<Rightarrow> 'a transport_scheme \<Rightarrow> (settlement \<times> nat) list" where
  "callsOf h s = map snd (filter (\<lambda>c. fst c = h) (settled s))"

text \<open>
  The state of the promise of waiter \<open>h\<close>: a promise takes the first call of its
  \<^verbatim>\<open>resolve\<close> or \<^verbatim>\<open>reject\<close> and ignores the later ones.
\<close>

definition promiseOf :: "nat \<Rightarrow> 'a transport_scheme \<Rightarrow> (settlement \<times> nat) option" where
  "promiseOf h s = (case callsOf h s of [] \<Rightarrow> None | c # cs \<Rightarrow> Some c)"

section \<open>Newline framing (HttpStreamTransport, StdioTransport)\<close>

text \<open>\<^verbatim>\<open>String.prototype.trim\<close> strips WhiteSpace and LineTerminator code units.\<close>

definition isWhiteSpace :: "nat \<Rightarrow> bool" where
  "isWhiteSpace c =
     (c \<in> {9, 10, 11, 12, 13, 32, 160, 5760, 8232, 8233, 8239, 8287, 12288, 65279}
      \<or> (8192 \<le> c \<and> c \<le> 8202))"

definition trim :: "jsstring \<Rightarrow> jsstring" where
  "trim str = rev (dropWhile isWhiteSpace (rev (dropWhile isWhiteSpace str)))"

text \<open>\<^verbatim>\<open>str.split('\n')\<close>; the newline is code unit 10.\<close>

fun split_newline :: "jsstring \<Rightarrow> jsstring list" where
  "split_newline [] = [[]]"
| "split_newline (c # cs) =
     (if c = 10 then [] # split_newline cs
      else (case split_newline cs of [] \<Rightarrow> [[c]] | l # ls \<Rightarrow> (c # l) # ls))"

text \<open>\<^verbatim>\<open>lines.pop() || ''\<close>: the last element, and what remains of the array.\<close>

definition pop :: "jsstring list \<Rightarrow> jsstring \<times> jsstring list" where
  "pop lines = (case lines of [] \<Rightarrow> ([], []) | _ \<Rightarrow> (last lines, butlast lines))"

record HttpStreamTransport = transport +
  http_url :: string
  responseStream :: bool
  http_buffer :: jsstring

record StdioTransport = transport +
  command :: string
  child :: bool
  stdio_buffer :: jsstring

text \<open>The loop over the complete lines: each is trimmed and, when not empty, handled.\<close>

definition processLines ::
  "(jsstring \<Rightarrow> json option) \<Rightarrow> jsstring list \<Rightarrow> 'a transport_scheme \<Rightarrow> 'a transport_scheme" where
  "processLines parse lines s =
     foldl (\<lambda>s' line. let trimmed = trim line
                       in if trimmed \<noteq> [] then handleResponse parse trimmed s' else s')
           s lines"

definition HttpStreamTransport_handleStreamData ::
  "(jsstring \<Rightarrow> json option) \<Rightarrow> jsstring \<Rightarrow> HttpStreamTransport \<Rightarrow> HttpStreamTransport" where
  "HttpStreamTransport_handleStreamData parse chunk s =
     (let s1 = s\<lparr>http_buffer := http_buffer s @ chunk\<rparr>;
          (rest, lines) = pop (split_newline (http_buffer s1));
          s2 = s1\<lparr>http_buffer := rest\<rparr>
      in processLines parse lines s2)"

definition StdioTransport_handleStreamData ::
  "(jsstring \<Rightarrow> json option) \<Rightarrow> jsstring \<Rightarrow> StdioTransport \<Rightarrow> StdioTransport" where
  "StdioTransport_handleStreamData parse chunk s =
     (let s1 = s\<lparr>stdio_buffer := stdio_buffer s @ chunk\<rparr>;
          (rest, lines) = pop (split_newline (stdio_buffer s1));
          s2 = s1\<lparr>stdio_buffer := rest\<rparr>
      in processLines parse lines s2)"

text \<open>
  The frames handed to \<^verbatim>\<open>handleResponse\<close> while a sequence of chunks is read, starting
  from a given buffer, and the buffer left at the end.
\<close>

fun delivered :: "jsstring \<Rightarrow> jsstring list \<Rightarrow> jsstring list \<times> jsstring" where
  "delivered buf [] = ([], buf)"
| "delivered buf (chunk # chunks) =
     (let (rest, lines) = pop (split_newline (buf @ chunk));
          (frames, buf') = delivered rest chunks
      in (filter (\<lambda>l. l \<noteq> []) (map trim lines) @ frames, buf'))"

section \<open>SseTransport\<close>

text \<open>The promise returned by a call of \<^verbatim>\<open>connect\<close>, of type \<^verbatim>\<open>Promise<void>\<close>.\<close>

datatype promise = Unsettled | Fulfilled | RejectedWith error

text \<open>A promise keeps its first settlement.\<close>

definition resolvePromise :: "promise \<Rightarrow> promise" where
  "resolvePromise p = (if p = Unsettled then Fulfilled else p)"

definition rejectPromise :: "error \<Rightarrow> promise \<Rightarrow> promise" where
  "rejectPromise e p = (if p = Unsettled then RejectedWith e else p)"

text \<open>
  What one call of \<^verbatim>\<open>connect()\<close> holds in its closure: the \<^verbatim>\<open>EventSource\<close> it created
  (\<open>sourceOpen\<close> tells whether there is one that was not closed), its local variable
  \<^verbatim>\<open>receivedEvent\<close>, and the promise it returned with that promise's \<^verbatim>\<open>resolve\<close> and
  \<^verbatim>\<open>reject\<close>.
\<close>

record connectCall =
  sourceOpen :: bool
  receivedEvent :: bool
  connectPromise :: promise

text \<open>
  \<open>connectCalls\<close> are the calls of \<^verbatim>\<open>connect()\<close> made so far, in order; a call is named by
  its position. \<open>eventSource\<close> is the field \<^verbatim>\<open>this.eventSource\<close>: \<^verbatim>\<open>null\<close>, or the
  \<^verbatim>\<open>EventSource\<close> of the call it names. An \<^verbatim>\<open>EventSource\<close> the field no longer refers to
  stays open and keeps its listeners.
\<close>

record SseTransport = transport +
  sse_url :: string
  eventSource :: "nat option"
  messageEndpoint :: "string option"
  connectCalls :: "connectCall list"

definition SseTransport_new :: "string \<Rightarrow> SseTransport" where
  "SseTransport_new url =
     transport.extend BaseTransport_new (SseTransport.fields url None None [])"

text \<open>
  The call \<^verbatim>\<open>connect()\<close> up to its \<^verbatim>\<open>return\<close>; it is call number
  \<open>length (connectCalls s)\<close>. The argument says whether the \<^verbatim>\<open>EventSource\<close> constructor
  throws, and what; when it throws, \<^verbatim>\<open>this.eventSource\<close> is not assigned.
\<close>

definition SseTransport_connect :: "error option \<Rightarrow> SseTransport \<Rightarrow> SseTransport" where
  "SseTransport_connect constructorThrows s =
     (if connected s then
        s\<lparr>connectCalls := connectCalls s
             @ [\<lparr>sourceOpen = False, receivedEvent = False, connectPromise = Fulfilled\<rparr>]\<rparr>
      else
        (case constructorThrows of
           Some e \<Rightarrow>
             s\<lparr>connectCalls := connectCalls s
                  @ [\<lparr>sourceOpen = False, receivedEvent = False, connectPromise = RejectedWith e\<rparr>]\<rparr>
         | None \<Rightarrow>
             s\<lparr>eventSource := Some (length (connectCalls s)),
               connectCalls := connectCalls s
                  @ [\<lparr>sourceOpen = True, receivedEvent = False, connectPromise = Unsettled\<rparr>]\<rparr>))"

datatype sseEvent =
    EndpointEvent string
  | OpenEvent
  | MessageEvent jsstring
  | ErrorEvent json

text \<open>The message of the rejection built in \<^verbatim>\<open>onerror\<close>.\<close>

definition connectErrorOf :: "string \<Rightarrow> json \<Rightarrow> error" where
  "connectErrorOf url err =
     FailedToConnectSse url (getProp err ''status'')
       (if truthy (getProp err ''message'') then getProp err ''message'' else None)"

text \<open>A listener of call \<open>k\<close> writes to the closure of call \<open>k\<close>.\<close>

definition updateCall ::
  "nat \<Rightarrow> (connectCall \<Rightarrow> connectCall) \<Rightarrow> SseTransport \<Rightarrow> SseTransport" where
  "updateCall k f s =
     (if k < length (connectCalls s)
      then s\<lparr>connectCalls := (connectCalls s)[k := f (connectCalls s ! k)]\<rparr>
      else s)"

text \<open>
  \<^verbatim>\<open>this.eventSource?.close(); this.eventSource = null\<close>: it closes the \<^verbatim>\<open>EventSource\<close>
  the field refers to, which is that of the latest call that created one.
\<close>

definition closeEventSource :: "SseTransport \<Rightarrow> SseTransport" where
  "closeEventSource s =
     (case eventSource s of
        None \<Rightarrow> s
      | Some j \<Rightarrow> (updateCall j (\<lambda>c. c\<lparr>sourceOpen := False\<rparr>) s)\<lparr>eventSource := None\<rparr>)"

text \<open>An \<^verbatim>\<open>EventSource\<close> delivers events to its listeners until it is closed.\<close>

definition delivers :: "nat \<Rightarrow> SseTransport \<Rightarrow> bool" where
  "delivers k s \<longleftrightarrow> k < length (connectCalls s) \<and> sourceOpen (connectCalls s ! k)"

text \<open>
  The listeners installed by call \<open>k\<close> of \<^verbatim>\<open>connect()\<close>, run on an event of the
  \<^verbatim>\<open>EventSource\<close> of that call.
\<close>

fun SseTransport_on ::
  "(jsstring \<Rightarrow> json option) \<Rightarrow> nat \<Rightarrow> SseTransport \<Rightarrow> sseEvent \<Rightarrow> SseTransport" where
  "SseTransport_on parse k s (EndpointEvent data) =
     (if \<not> delivers k s then s
      else (updateCall k (\<lambda>c. c\<lparr>receivedEvent := True,
                                connectPromise := resolvePromise (connectPromise c)\<rparr>) s)
             \<lparr>messageEndpoint := Some data, connected := True\<rparr>)"
| "SseTransport_on parse k s OpenEvent = s"
| "SseTransport_on parse k s (MessageEvent data) =
     (if \<not> delivers k s then s
      else handleResponse parse data (updateCall k (\<lambda>c. c\<lparr>receivedEvent := True\<rparr>) s))"
| "SseTransport_on parse k s (ErrorEvent err) =
     (if \<not> delivers k s then s
      else if \<not> connected s \<and> \<not> receivedEvent (connectCalls s ! k) then
        updateCall k
          (\<lambda>c. c\<lparr>connectPromise :=
                    rejectPromise (connectErrorOf (sse_url s) err) (connectPromise c)\<rparr>)
          (closeEventSource s)
      else cleanup (s\<lparr>console := console s @ [SseConnectionError err]\<rparr>))"

definition SseTransport_disconnect :: "SseTransport \<Rightarrow> SseTransport" where
  "SseTransport_disconnect s = cleanup (closeEventSource s)"

text \<open>
  What runs on an event-stream transport: a call of \<^verbatim>\<open>connect()\<close>, an event of the
  \<^verbatim>\<open>EventSource\<close> of one of the calls, a call of \<^verbatim>\<open>disconnect()\<close>.
\<close>

datatype sseAction = Connect "error option" | Source nat sseEvent | Disconnect

fun sse_step :: "(jsstring \<Rightarrow> json option) \<Rightarrow> SseTransport \<Rightarrow> sseAction \<Rightarrow> SseTransport" where
  "sse_step parse s (Connect constructorThrows) = SseTransport_connect constructorThrows s"
| "sse_step parse s (Source k ev) = SseTransport_on parse k s ev"
| "sse_step parse s Disconnect = SseTransport_disconnect s"

definition sse_run ::
  "(jsstring \<Rightarrow> json option) \<Rightarrow> SseTransport \<Rightarrow> sseAction list \<Rightarrow> SseTransport" where
  "sse_run parse s acts = foldl (sse_step parse) s acts"



section \<open>McpClient\<close>

text \<open>
  \<^verbatim>\<open>IMcpServerConfig\<close>, with the fields \<^verbatim>\<open>createTransport\<close> and the constructors read.
  \<open>None\<close> is an absent field. \<^verbatim>\<open>type\<close> is whatever string the configuration file holds.
\<close>

record IMcpServerConfig =
  cfg_type :: "string option"
  cfg_url :: "string option"
  cfg_command :: "string option"

datatype TransportType = sse | httpStream | stdio

text \<open>
  What \<^verbatim>\<open>McpClient\<close> holds of a transport: it reaches it only through \<^verbatim>\<open>ITransport\<close>
  (\<^verbatim>\<open>connect\<close>, \<^verbatim>\<open>disconnect\<close>, \<^verbatim>\<open>sendRequest\<close>, \<^verbatim>\<open>isConnected\<close>), so an entry of the
  registry is the base-class state of the transport and the class it was built from.
\<close>

record ITransport = transport +
  kind :: TransportType

definition ITransport_new :: "TransportType \<Rightarrow> ITransport" where
  "ITransport_new k = transport.extend BaseTransport_new (ITransport.fields k)"

text \<open>Truthiness of an optional string field: present and not empty.\<close>

definition given :: "string option \<Rightarrow> bool" where
  "given x = (case x of None \<Rightarrow> False | Some v \<Rightarrow> v \<noteq> [])"

text \<open>
  \<^verbatim>\<open>createTransport\<close>, with the check each constructor makes
  (\<^verbatim>\<open>if (!config.url) throw\<close>, \<^verbatim>\<open>if (!config.command) throw\<close>).
\<close>

definition createTransport :: "IMcpServerConfig \<Rightarrow> error + ITransport" where
  "createTransport config =
     (let detected =
            (if \<not> given (cfg_type config) then
               (if given (cfg_command config) then Inr ''stdio''
                else if given (cfg_url config) then Inr ''sse''
                else Inl InvalidServerConfiguration)
             else Inr (case cfg_type config of None \<Rightarrow> [] | Some t \<Rightarrow> t))
      in case detected of
           Inl e \<Rightarrow> Inl e
         | Inr t \<Rightarrow>
             if t = ''sse'' then
               (if \<not> given (cfg_url config) then Inl TransportRequiresUrl
                else Inr (ITransport_new sse))
             else if t = ''httpStream'' then
               (if \<not> given (cfg_url config) then Inl TransportRequiresUrl
                else Inr (ITransport_new httpStream))
             else if t = ''stdio'' then
               (if \<not> given (cfg_command config) then Inl TransportRequiresCommand
                else Inr (ITransport_new stdio))
             else Inl (UnsupportedTransportType t))"

text \<open>
  \<open>servers\<close> is the \<^verbatim>\<open>Map\<close> from server name to transport, in insertion order. The
  counter of \<^verbatim>\<open>utils/jsonrpc\<close>, a variable of that module, is carried with the client.
\<close>

record McpClient =
  servers :: "(string \<times> ITransport) list"
  requestIdCounter :: nat

definition McpClient_new :: McpClient where
  "McpClient_new = \<lparr>servers = [], requestIdCounter = 0\<rparr>"

text \<open>
  How one transport's \<^verbatim>\<open>connect()\<close> ends, which the network or the child process
  decides. Every class sets \<^verbatim>\<open>connected = true\<close> just before it resolves.
\<close>

datatype connectOutcome = ConnectResolves | ConnectRejects error | ConnectNeverSettles

text \<open>
  The callback \<^verbatim>\<open>connect\<close> maps over the entries of the configuration: the promise it
  returns and the registry it leaves.
\<close>

definition connectServer ::
  "string \<Rightarrow> IMcpServerConfig \<Rightarrow> connectOutcome \<Rightarrow> (string \<times> ITransport) list \<Rightarrow>
   promise \<times> (string \<times> ITransport) list" where
  "connectServer serverName serverConfig outcome reg =
     (case createTransport serverConfig of
        Inl e \<Rightarrow> (RejectedWith e, reg)
      | Inr transport \<Rightarrow>
          (case outcome of
             ConnectRejects e \<Rightarrow> (RejectedWith e, reg)
           | ConnectNeverSettles \<Rightarrow> (Unsettled, reg)
           | ConnectResolves \<Rightarrow>
               (Fulfilled, AList.update serverName (transport\<lparr>connected := True\<rparr>) reg)))"

text \<open>
  \<^verbatim>\<open>Promise.all\<close>: rejected when a member is rejected, whatever the others do; fulfilled
  when all are; unsettled otherwise.
\<close>

definition promiseAll :: "promise list \<Rightarrow> promise" where
  "promiseAll ps =
     (case filter (\<lambda>p. p \<noteq> Fulfilled \<and> p \<noteq> Unsettled) ps of
        p # _ \<Rightarrow> p
      | [] \<Rightarrow> if Unsettled \<in> set ps then Unsettled else Fulfilled)"

fun connectAll ::
  "(string \<times> IMcpServerConfig) list \<Rightarrow> (string \<Rightarrow> connectOutcome) \<Rightarrow>
   (string \<times> ITransport) list \<Rightarrow> promise list \<times> (string \<times> ITransport) list" where
  "connectAll [] net reg = ([], reg)"
| "connectAll ((serverName, serverConfig) # entries) net reg =
     (let (p, reg1) = connectServer serverName serverConfig (net serverName) reg;
          (ps, reg2) = connectAll entries net reg1
      in (p # ps, reg2))"

text \<open>
  \<^verbatim>\<open>connect\<close>. \<open>loaded\<close> is the result of \<^verbatim>\<open>loadConfig\<close>: an error, or the \<^verbatim>\<open>mcpServers\<close>
  of the file (\<open>None\<close> when the file has none), its entries taken in the order in which
  their connects end. \<open>net\<close> gives the outcome of each server's \<^verbatim>\<open>transport.connect()\<close>.
\<close>

definition McpClient_connect ::
  "error + (string \<times> IMcpServerConfig) list option \<Rightarrow> (string \<Rightarrow> connectOutcome) \<Rightarrow>
   McpClient \<Rightarrow> promise \<times> McpClient" where
  "McpClient_connect loaded net c =
     (case loaded of
        Inl e \<Rightarrow> (RejectedWith FailedToLoadConfiguration, c)
      | Inr None \<Rightarrow> (RejectedWith NoServersConfigured, c)
      | Inr (Some mcpServers) \<Rightarrow>
          if mcpServers = [] then (RejectedWith NoServersConfigured, c)
          else
            let (ps, reg) = connectAll mcpServers net (servers c)
            in (promiseAll ps, c\<lparr>servers := reg\<rparr>))"

text \<open>
  \<^verbatim>\<open>disconnect\<close>: every registered transport is disconnected (each class closes its
  channel and calls \<^verbatim>\<open>cleanup\<close>), then the registry is cleared. The result also gives
  the transports as their \<^verbatim>\<open>disconnect\<close> left them.
\<close>

definition McpClient_disconnect :: "McpClient \<Rightarrow> (string \<times> ITransport) list \<times> McpClient" where
  "McpClient_disconnect c =
     (map (\<lambda>(serverName, transport). (serverName, cleanup transport)) (servers c),
      c\<lparr>servers := []\<rparr>)"

definition getConnectedServers :: "McpClient \<Rightarrow> string list" where
  "getConnectedServers c = map fst (servers c)"

definition isServerConnected :: "McpClient \<Rightarrow> string \<Rightarrow> bool" where
  "isServerConnected c serverName =
     (case map_of (servers c) serverName of
        None \<Rightarrow> False
      | Some transport \<Rightarrow> isConnected transport)"

subsection \<open>The list operations\<close>




text \<open>
  The first phase of a list operation, up to the \<^verbatim>\<open>await\<close> of each callback: for every
  registry entry in order a request is created and \<^verbatim>\<open>sendRequest\<close> is called. Each
  server gets the exception thrown or the handle of the waiter it now awaits.
\<close>

fun issueAll ::
  "string \<Rightarrow> (string \<times> ITransport) list \<Rightarrow> nat \<Rightarrow>
   (string \<times> (error + nat)) list \<times> (string \<times> ITransport) list \<times> nat" where
  "issueAll method [] counter = ([], [], counter)"
| "issueAll method ((serverName, transport) # rest) counter =
     (let (request, counter1) = createRequest method (Some (JObj [])) counter;
          (w, transport1) =
            (case sendRequest request transport of
               Inl e \<Rightarrow> (Inl e, transport)
             | Inr (h, t') \<Rightarrow> (Inr h, t'));
          (ws, rest1, counter2) = issueAll method rest counter1
      in ((serverName, w) # ws, (serverName, transport1) # rest1, counter2))"

definition issue :: "string \<Rightarrow> McpClient \<Rightarrow> (string \<times> (error + nat)) list \<times> McpClient" where
  "issue method c =
     (let (ws, reg, counter) = issueAll method (servers c) (requestIdCounter c)
      in (ws, c\<lparr>servers := reg, requestIdCounter := counter\<rparr>))"



text \<open>\<^verbatim>\<open>Promise.all\<close> over promises that are all settled: the first rejection, or all values.\<close>

fun allSettled :: "(error + 'a) list \<Rightarrow> error + 'a list" where
  "allSettled [] = Inr []"
| "allSettled (Inl e # ps) = Inl e"
| "allSettled (Inr v # ps) = (case allSettled ps of Inl e \<Rightarrow> Inl e | Inr vs \<Rightarrow> Inr (v # vs))"





definition listTools_issue :: "McpClient \<Rightarrow> (string \<times> (error + nat)) list \<times> McpClient" where
  "listTools_issue c = issue ''tools/list'' c"

definition listResources_issue :: "McpClient \<Rightarrow> (string \<times> (error + nat)) list \<times> McpClient" where
  "listResources_issue c = issue ''resources/list'' c"

definition listPrompts_issue :: "McpClient \<Rightarrow> (string \<times> (error + nat)) list \<times> McpClient" where
  "listPrompts_issue c = issue ''prompts/list'' c"

subsection \<open>The call operations\<close>

text \<open>
  Where a call stands when control returns to the event loop: it has thrown, or it is
  suspended on the waiter of its request.
\<close>

datatype callState = Failed error | Awaiting nat

text \<open>
  \<^verbatim>\<open>callTool\<close>, \<^verbatim>\<open>readResource\<close> and \<^verbatim>\<open>getPrompt\<close> differ in the method and the parameters
  of the request only: the registry lookup, then \<^verbatim>\<open>createRequest\<close>, then \<^verbatim>\<open>sendRequest\<close>.
\<close>

definition callServer ::
  "string \<Rightarrow> string \<Rightarrow> json \<Rightarrow> McpClient \<Rightarrow> callState \<times> McpClient" where
  "callServer serverName method params c =
     (case map_of (servers c) serverName of
        None \<Rightarrow> (Failed (ServerNotFound serverName), c)
      | Some transport \<Rightarrow>
          let (request, counter) = createRequest method (Some params) (requestIdCounter c);
              c1 = c\<lparr>requestIdCounter := counter\<rparr>
          in (case sendRequest request transport of
                Inl e \<Rightarrow> (Failed e, c1)
              | Inr (h, t') \<Rightarrow>
                  (Awaiting h, c1\<lparr>servers := AList.update serverName t' (servers c1)\<rparr>)))"

text \<open>An object literal drops nothing, but \<^verbatim>\<open>undefined\<close> members are not sent.\<close>

definition members :: "(string \<times> json option) list \<Rightarrow> json" where
  "members kvs = JObj (concat (map (\<lambda>(k, v). case v of None \<Rightarrow> [] | Some x \<Rightarrow> [(k, x)]) kvs))"

definition callTool ::
  "string \<Rightarrow> string \<Rightarrow> json option \<Rightarrow> McpClient \<Rightarrow> callState \<times> McpClient" where
  "callTool serverName toolName params c =
     callServer serverName ''tools/call''
       (members [(''name'', Some (JStr toolName)), (''arguments'', params)]) c"

definition readResource :: "string \<Rightarrow> string \<Rightarrow> McpClient \<Rightarrow> callState \<times> McpClient" where
  "readResource serverName uri c =
     callServer serverName ''resources/read'' (members [(''uri'', Some (JStr uri))]) c"

definition getPrompt ::
  "string \<Rightarrow> string \<Rightarrow> json option \<Rightarrow> McpClient \<Rightarrow> callState \<times> McpClient" where
  "getPrompt serverName promptName args c =
     callServer serverName ''prompts/get''
       (members [(''name'', Some (JStr promptName)), (''arguments'', args)]) c"

text \<open>
  The rest of a call, once the awaited promise is settled: a rejection is thrown on, a
  response with a truthy \<^verbatim>\<open>error\<close> throws the call's own error, and any other response
  gives its \<^verbatim>\<open>result\<close>. \<open>method\<close> tells the three operations apart.
\<close>

definition callSettled :: "string \<Rightarrow> settlement \<Rightarrow> error + json option" where
  "callSettled method outcome =
     (case outcome of
        Rejected e \<Rightarrow> Inl e
      | Resolved response \<Rightarrow>
          if truthy (getProp response ''error'')
          then Inl (CallFailed method
                      (case getProp response ''error'' of
                         None \<Rightarrow> None | Some err \<Rightarrow> getProp err ''message''))
          else Inr (getProp response ''result''))"

text \<open>
  What happens to one registered transport (an inbound frame, its stream ending, a
  timer) reaches the client's registry entry of that server.
\<close>

definition transportEvent ::
  "(jsstring \<Rightarrow> json option) \<Rightarrow> string \<Rightarrow> event \<Rightarrow> McpClient \<Rightarrow> McpClient" where
  "transportEvent parse serverName e c =
     c\<lparr>servers := map (\<lambda>(n, t). if n = serverName then (n, step parse t e) else (n, t))
                      (servers c)\<rparr>"

section \<open>Well-formed responses and sample data\<close>


text \<open>
  Requests, the texts of some frames and what \<^verbatim>\<open>JSON.parse\<close> makes of them:
  \<^verbatim>\<open>{"jsonrpc":"2.0","id":0,"result":{}}\<close>, the same with id 1 and with id 7,
  \<^verbatim>\<open>{"jsonrpc":"2.0","id":1,"error":{"code":-32601,"message":"no"}}\<close>,
  \<^verbatim>\<open>{"jsonrpc":"2.0","id":1,"error":null}\<close>, \<^verbatim>\<open>{"id":1}\<close>, and \<^verbatim>\<open>not json\<close>, which does
  not parse.
\<close>

definition request0 :: JsonRpcRequest where
  "request0 = \<lparr>req_jsonrpc = ''2.0'', req_method = ''ping'', req_params = None, req_id = NumId 0\<rparr>"

definition request1 :: JsonRpcRequest where
  "request1 = fst (createRequest ''tools/list'' (Some (JObj [])) 0)"

definition request2 :: JsonRpcRequest where
  "request2 = fst (createRequest ''tools/list'' (Some (JObj [])) 1)"

definition text_result0 :: jsstring where
  "text_result0 = [123, 34, 106, 115, 111, 110, 114, 112, 99, 34, 58, 34, 50, 46, 48, 34, 44, 34,
     105, 100, 34, 58, 48, 44, 34, 114, 101, 115, 117, 108, 116, 34, 58, 123, 125, 125]"

definition text_result1 :: jsstring where
  "text_result1 = [123, 34, 106, 115, 111, 110, 114, 112, 99, 34, 58, 34, 50, 46, 48, 34, 44, 34,
     105, 100, 34, 58, 49, 44, 34, 114, 101, 115, 117, 108, 116, 34, 58, 123, 125, 125]"

definition text_error1 :: jsstring where
  "text_error1 = [123, 34, 106, 115, 111, 110, 114, 112, 99, 34, 58, 34, 50, 46, 48, 34, 44, 34,
     105, 100, 34, 58, 49, 44, 34, 101, 114, 114, 111, 114, 34, 58, 123, 34, 99, 111, 100, 101,
     34, 58, 45, 51, 50, 54, 48, 49, 44, 34, 109, 101, 115, 115, 97, 103, 101, 34, 58, 34, 110,
     111, 34, 125, 125]"

definition text_null_error1 :: jsstring where
  "text_null_error1 = [123, 34, 106, 115, 111, 110, 114, 112, 99, 34, 58, 34, 50, 46, 48, 34, 44,
     34, 105, 100, 34, 58, 49, 44, 34, 101, 114, 114, 111, 114, 34, 58, 110, 117, 108, 108, 125]"

definition text_result7 :: jsstring where
  "text_result7 = [123, 34, 106, 115, 111, 110, 114, 112, 99, 34, 58, 34, 50, 46, 48, 34, 44, 34,
     105, 100, 34, 58, 55, 44, 34, 114, 101, 115, 117, 108, 116, 34, 58, 123, 125, 125]"

definition text_no_jsonrpc :: jsstring where
  "text_no_jsonrpc = [123, 34, 105, 100, 34, 58, 49, 125]"

definition text_not_json :: jsstring where
  "text_not_json = [110, 111, 116, 32, 106, 115, 111, 110]"

definition result0 :: json where
  "result0 = JObj [(''jsonrpc'', JStr ''2.0''), (''id'', JNum 0), (''result'', JObj [])]"

definition result1 :: json where
  "result1 = JObj [(''jsonrpc'', JStr ''2.0''), (''id'', JNum 1), (''result'', JObj [])]"

definition error1 :: json where
  "error1 = JObj [(''jsonrpc'', JStr ''2.0''), (''id'', JNum 1),
                  (''error'', JObj [(''code'', JNum (- 32601)), (''message'', JStr ''no'')])]"

definition null_error1 :: json where
  "null_error1 = JObj [(''jsonrpc'', JStr ''2.0''), (''id'', JNum 1), (''error'', JNull)]"

definition result7 :: json where
  "result7 = JObj [(''jsonrpc'', JStr ''2.0''), (''id'', JNum 7), (''result'', JObj [])]"

definition parseSample :: "jsstring \<Rightarrow> json option" where
  "parseSample = map_of
     [(text_result0, result0), (text_result1, result1), (text_error1, error1),
      (text_null_error1, null_error1), (text_result7, result7),
      (text_no_jsonrpc, JObj [(''id'', JNum 1)])]"


definition waiting1 :: transport where
  "waiting1 = run parseSample BaseTransport_new [Established, SendRequest request1]"


text \<open>
  The complete lines of a stream (those ended by a newline), trimmed, without the empty
  ones: what a reader that saw the whole stream at once would hand on.
\<close>

definition completeFrames :: "jsstring \<Rightarrow> jsstring list" where
  "completeFrames stream = filter (\<lambda>l. l \<noteq> []) (map trim (butlast (split_newline stream)))"

text \<open>Frames handed to \<^verbatim>\<open>handleResponse\<close> one after the other.\<close>

definition handleAll ::
  "(jsstring \<Rightarrow> json option) \<Rightarrow> jsstring list \<Rightarrow> 'a transport_scheme \<Rightarrow> 'a transport_scheme" where
  "handleAll parse frames s = foldl (\<lambda>s' frame. handleResponse parse frame s') s frames"

text \<open>The \<^verbatim>\<open>data\<close> listener called on each chunk of a stream in turn.\<close>

definition http_receive ::
  "(jsstring \<Rightarrow> json option) \<Rightarrow> HttpStreamTransport \<Rightarrow> jsstring list \<Rightarrow> HttpStreamTransport" where
  "http_receive parse s chunks =
     foldl (\<lambda>s' chunk. HttpStreamTransport_handleStreamData parse chunk s') s chunks"

definition stdio_receive ::
  "(jsstring \<Rightarrow> json option) \<Rightarrow> StdioTransport \<Rightarrow> jsstring list \<Rightarrow> StdioTransport" where
  "stdio_receive parse s chunks =
     foldl (\<lambda>s' chunk. StdioTransport_handleStreamData parse chunk s') s chunks"

text \<open>
  Stream transports with the request of id 1 pending, and the text of its response with
  a carriage return, a newline and two spaces after it, cut into three fragments.
\<close>

definition http_waiting1 :: HttpStreamTransport where
  "http_waiting1 = transport.extend waiting1 (HttpStreamTransport.fields ''http://localhost/mcp'' True [])"

definition stdio_waiting1 :: StdioTransport where
  "stdio_waiting1 = transport.extend waiting1 (StdioTransport.fields ''npx'' True [])"

definition fragment_a :: jsstring where
  "fragment_a = [123, 34, 106, 115, 111, 110, 114, 112, 99, 34, 58, 34, 50, 46]"

definition fragment_b :: jsstring where
  "fragment_b = [48, 34, 44, 34, 105, 100, 34, 58, 49, 44, 34, 114, 101, 115, 117, 108, 116]"

definition fragment_c :: jsstring where
  "fragment_c = [34, 58, 123, 125, 125, 13, 10, 32, 32]"

text \<open>
  A client with two servers registered, \<open>a\<close> over the event stream and \<open>b\<close> over a child
  process, both connected; and the same client after the transport of \<open>a\<close> has died.
\<close>

definition config_a :: IMcpServerConfig where
  "config_a = \<lparr>cfg_type = None, cfg_url = Some ''http://localhost:3000/sse'', cfg_command = None\<rparr>"

definition config_b :: IMcpServerConfig where
  "config_b = \<lparr>cfg_type = None, cfg_url = None, cfg_command = Some ''npx''\<rparr>"

definition net_up :: "string \<Rightarrow> connectOutcome" where
  "net_up serverName = ConnectResolves"

definition client_ab :: McpClient where
  "client_ab =
     snd (McpClient_connect (Inr (Some [(''a'', config_a), (''b'', config_b)])) net_up McpClient_new)"

definition client_ab_a_down :: McpClient where
  "client_ab_a_down = transportEvent parseSample ''a'' Cleanup client_ab"

definition transport_a :: ITransport where
  "transport_a = \<lparr>connected = True, pendingRequests = [], requestTimeout = 30000, timers = [],
     sends = [], nextHandle = 0, settled = [], console = [], now = 0, kind = sse\<rparr>"

definition transport_b :: ITransport where
  "transport_b = \<lparr>connected = True, pendingRequests = [], requestTimeout = 30000, timers = [],
     sends = [], nextHandle = 0, settled = [], console = [], now = 0, kind = stdio\<rparr>"






text \<open>
  What two servers' list requests ended with: \<open>a\<close> answered with one tool, the request to
  \<open>b\<close> timed out.
\<close>

definition tools_response :: json where
  "tools_response =
     JObj [(''jsonrpc'', JStr ''2.0''), (''id'', JNum 1),
           (''result'', JObj [(''tools'', JArr [JObj [(''name'', JStr ''x'')]])])]"


text \<open>
  A server fails to connect when its transport cannot be built or its \<^verbatim>\<open>connect()\<close>
  rejects; it connects when the transport is built and its \<^verbatim>\<open>connect()\<close> resolves.
\<close>

definition connectFails :: "(string \<Rightarrow> connectOutcome) \<Rightarrow> string \<times> IMcpServerConfig \<Rightarrow> bool" where
  "connectFails net entry =
     (case createTransport (snd entry) of
        Inl e \<Rightarrow> True
      | Inr t \<Rightarrow> (case net (fst entry) of ConnectRejects e \<Rightarrow> True | _ \<Rightarrow> False))"

definition connectSucceeds :: "(string \<Rightarrow> connectOutcome) \<Rightarrow> string \<times> IMcpServerConfig \<Rightarrow> bool" where
  "connectSucceeds net entry =
     (case createTransport (snd entry) of
        Inl e \<Rightarrow> False
      | Inr t \<Rightarrow> net (fst entry) = ConnectResolves)"

text \<open>A configuration file with a third server, \<open>c\<close>, that has neither a command nor a url.\<close>

definition config_c :: IMcpServerConfig where
  "config_c = \<lparr>cfg_type = None, cfg_url = None, cfg_command = None\<rparr>"

definition net_b_down :: "string \<Rightarrow> connectOutcome" where
  "net_b_down serverName =
     (if serverName = ''b'' then ConnectRejects (IOError ''spawn npx ENOENT'') else ConnectResolves)"

text \<open>
  The entries of a configuration file with the servers \<open>a\<close>, \<open>b\<close> and \<open>c\<close>, in the order in
  which their connects end: \<open>c\<close> at once, since no transport can be built for it, then
  \<open>a\<close>, then \<open>b\<close>.
\<close>

definition entries_cab :: "(string \<times> IMcpServerConfig) list" where
  "entries_cab = [(''c'', config_c), (''a'', config_a), (''b'', config_b)]"

definition client_cab :: McpClient where
  "client_cab = snd (McpClient_connect (Inr (Some entries_cab)) net_b_down McpClient_new)"

text \<open>
  The event that settles the promise of a \<^verbatim>\<open>connect()\<close> call which opened an event
  source, among the events of that source when nothing else runs on the transport, if
  there is one: the first \<open>endpoint\<close> event, or an error that comes before any \<open>endpoint\<close>
  or message event; after a message event only an \<open>endpoint\<close> event can.
\<close>

fun firstEndpoint :: "sseEvent list \<Rightarrow> sseEvent option" where
  "firstEndpoint [] = None"
| "firstEndpoint (EndpointEvent d # evs) = Some (EndpointEvent d)"
| "firstEndpoint (ev # evs) = firstEndpoint evs"

fun decisive :: "sseEvent list \<Rightarrow> sseEvent option" where
  "decisive [] = None"
| "decisive (EndpointEvent d # evs) = Some (EndpointEvent d)"
| "decisive (ErrorEvent err # evs) = Some (ErrorEvent err)"
| "decisive (OpenEvent # evs) = decisive evs"
| "decisive (MessageEvent m # evs) = firstEndpoint evs"

definition settlesAs :: "string \<Rightarrow> sseEvent option \<Rightarrow> promise" where
  "settlesAs url ev =
     (case ev of
        Some (EndpointEvent d) \<Rightarrow> Fulfilled
      | Some (ErrorEvent err) \<Rightarrow> RejectedWith (connectErrorOf url err)
      | _ \<Rightarrow> Unsettled)"

text \<open>
  An event-stream transport after a \<^verbatim>\<open>connect()\<close> that received its \<open>endpoint\<close> event.
\<close>

definition sse_established :: SseTransport where
  "sse_established =
     sse_run parseSample (SseTransport_new ''http://localhost:3000/sse'')
       [Connect None, Source 0 OpenEvent, Source 0 (EndpointEvent ''/messages?sessionId=1'')]"

text \<open>
  What holds of every state a transport reaches: the table has one entry per id; every
  entry's waiter has its timer armed, under the same id; armed timers have distinct
  handles, stand in the order of their due times, are not overdue, and belong to waiters
  that no \<^verbatim>\<open>resolve\<close> or \<^verbatim>\<open>reject\<close> has been called on; handles in use are below
  \<open>nextHandle\<close>; and a send in flight carries the id its waiter's timer closed over.
\<close>

definition orderly :: "'a transport_scheme \<Rightarrow> bool" where
  "orderly s \<longleftrightarrow>
       distinct (map fst (pendingRequests s))
     \<and> distinct (map fst (timers s))
     \<and> sorted (map (\<lambda>x. snd (snd x)) (timers s))
     \<and> (\<forall>p \<in> set (pendingRequests s). \<exists>d. (snd p, fst p, d) \<in> set (timers s))
     \<and> (\<forall>x \<in> set (timers s).
           fst x < nextHandle s \<and> now s \<le> snd (snd x)
           \<and> snd (snd x) \<le> now s + requestTimeout s \<and> fst x \<notin> fst ` set (settled s))
     \<and> (\<forall>c \<in> set (settled s). fst c < nextHandle s)
     \<and> (\<forall>m \<in> set (sends s).
           fst m < nextHandle s
           \<and> (\<forall>x \<in> set (timers s). fst x = fst m \<longrightarrow> fst (snd x) = req_id (snd m)))"

text \<open>
  The table key an inbound frame asks for: the id of a well-formed response, when it is
  truthy and a number or a string. And the table entry the frame is matched with, if any.
\<close>

definition frameKey :: "(jsstring \<Rightarrow> json option) \<Rightarrow> jsstring \<Rightarrow> rid option" where
  "frameKey parse d =
     (case parse d of
        None \<Rightarrow> None
      | Some v \<Rightarrow>
          (case validateResponse v of
             Inl e \<Rightarrow> None
           | Inr response \<Rightarrow>
               (case getProp response ''id'' of
                  None \<Rightarrow> None
                | Some i \<Rightarrow> if \<not> truthy (Some i) then None else key_of i)))"

definition matchOf ::
  "(jsstring \<Rightarrow> json option) \<Rightarrow> jsstring \<Rightarrow> 'a transport_scheme \<Rightarrow> (rid \<times> nat) option" where
  "matchOf parse d s =
     (case frameKey parse d of
        None \<Rightarrow> None
      | Some k \<Rightarrow>
          (case map_of (pendingRequests s) k of
             None \<Rightarrow> None
           | Some h \<Rightarrow> Some (k, h)))"


text \<open>
  An event that leaves the request of waiter \<open>h\<close> and id \<open>i\<close> to its timer: not a
  response that asks for its id, not the failure of its send, not \<^verbatim>\<open>cleanup\<close>, and not
  another request under the same id.
\<close>

fun undisturbed :: "(jsstring \<Rightarrow> json option) \<Rightarrow> nat \<Rightarrow> rid \<Rightarrow> event \<Rightarrow> bool" where
  "undisturbed parse h i (SendRequest r) = (req_id r \<noteq> i)"
| "undisturbed parse h i (SendMessageFailed h' e) = (h' \<noteq> h)"
| "undisturbed parse h i (Incoming d) = (frameKey parse d \<noteq> Some i)"
| "undisturbed parse h i Cleanup = False"
| "undisturbed parse h i e = True"

text \<open>
  A transport where, at time 5, the request of id 1 was sent; then another request, a
  response for an id nobody waits for and some time passing; and the same with the
  clock at the deadline and beyond. And a transport that was cleaned up before the
  deadline of its request.
\<close>

definition sent_at_5 :: transport where
  "sent_at_5 = run parseSample BaseTransport_new [Established, Advance 5]"

definition sent1_at_5 :: transport where
  "sent1_at_5 = step parseSample sent_at_5 (SendRequest request1)"

definition after_sent_at_5 :: "event list" where
  "after_sent_at_5 = [SendRequest request2, Incoming text_result7, Advance 100, Established]"

definition closed_before_deadline :: transport where
  "closed_before_deadline =
     run parseSample BaseTransport_new
       [Established, SendRequest request1, Advance 10, Cleanup, Advance 30000]"

text \<open>
  Every waiter created so far is accounted for: a \<^verbatim>\<open>resolve\<close> or \<^verbatim>\<open>reject\<close> of it was
  called, or the table holds it; every armed timer's waiter is in the table under the
  timer's id; and a table entry under the id of a send in flight belongs to that send's
  waiter.
\<close>

definition accounted :: "'a transport_scheme \<Rightarrow> bool" where
  "accounted s \<longleftrightarrow>
       (\<forall>h < nextHandle s. h \<in> fst ` set (settled s) \<or> h \<in> snd ` set (pendingRequests s))
     \<and> (\<forall>x \<in> set (timers s). (fst (snd x), fst x) \<in> set (pendingRequests s))
     \<and> (\<forall>m \<in> set (sends s). \<forall>p \<in> set (pendingRequests s).
           fst p = req_id (snd m) \<longrightarrow> snd p = fst m)"

text \<open>A frame whose \<^verbatim>\<open>error\<close> member is \<^verbatim>\<open>null\<close>.\<close>

definition nullError :: "(jsstring \<Rightarrow> json option) \<Rightarrow> jsstring \<Rightarrow> bool" where
  "nullError parse d = (case parse d of None \<Rightarrow> False | Some v \<Rightarrow> getProp v ''error'' = Some JNull)"

text \<open>
  The use the client makes of a transport: a request is sent under an id that no pending
  request and no send in flight has, as the ids of \<^verbatim>\<open>createRequest\<close> are; and the use a
  server makes of it that keeps to JSON-RPC: no response carries a \<^verbatim>\<open>null\<close> error.
\<close>

fun proper :: "(jsstring \<Rightarrow> json option) \<Rightarrow> 'a transport_scheme \<Rightarrow> event \<Rightarrow> bool" where
  "proper parse s (SendRequest r) =
     (req_id r \<notin> fst ` set (pendingRequests s) \<and> req_id r \<notin> (\<lambda>m. req_id (snd m)) ` set (sends s))"
| "proper parse s (Incoming d) = (\<not> nullError parse d)"
| "proper parse s e = True"

fun properRun :: "(jsstring \<Rightarrow> json option) \<Rightarrow> 'a transport_scheme \<Rightarrow> event list \<Rightarrow> bool" where
  "properRun parse s [] = True"
| "properRun parse s (e # es) = (proper parse s e \<and> properRun parse (step parse s e) es)"

text \<open>The promise that call \<open>k\<close> of \<^verbatim>\<open>connect()\<close> returned.\<close>

definition promiseOfCall :: "nat \<Rightarrow> SseTransport \<Rightarrow> promise" where
  "promiseOfCall k s = connectPromise (connectCalls s ! k)"


text \<open>
  The configuration with the servers \<open>a\<close> and \<open>b\<close> read a second time, when the process of
  \<open>b\<close> cannot be spawned any more: the connect of \<open>a\<close> ends first, then that of \<open>b\<close>.
\<close>

definition client_ab_retried :: "promise \<times> McpClient" where
  "client_ab_retried =
     McpClient_connect (Inr (Some [(''a'', config_a), (''b'', config_b)])) net_b_down client_ab"

section \<open>Properties\<close>

lemmas samples = request0_def request1_def request2_def text_result0_def text_result1_def
  text_error1_def text_null_error1_def text_result7_def text_no_jsonrpc_def text_not_json_def
  result0_def result1_def error1_def null_error1_def result7_def parseSample_def

lemmas base_defs = run_def sendRequest_def BaseTransport_new_def createRequest_def
  generateRequestId_def handleResponse_def handleResponse_try_def getPending_def
  deletePending_def isErrorResponse_def settle_def clearTimeout_def cleanup_def


lemma waiting1_eq:
  "waiting1 = \<lparr>connected = True, pendingRequests = [(NumId 1, 0)], requestTimeout = 30000,
     timers = [(0, NumId 1, 30000)], sends = [(0, request1)], nextHandle = 1, settled = [],
     console = [], now = 0\<rparr>"
  by (simp add: waiting1_def request1_def base_defs)


subsection \<open>handleResponse\<close>








text \<open>
  A response whose \<^verbatim>\<open>error\<close> field is \<^verbatim>\<open>null\<close>: the entry is removed and the timer disarmed,
  reading \<^verbatim>\<open>response.error.code\<close> throws, and the waiter is neither resolved nor rejected.
\<close>

lemma handleResponse_null_error:
  "parseSample text_null_error1 = Some null_error1
   \<and> handleResponse parseSample text_null_error1 waiting1
       = waiting1\<lparr>pendingRequests := [], timers := [], console := [TypeError]\<rparr>
   \<and> promiseOf 0 (handleResponse parseSample text_null_error1 waiting1) = None"
  by (simp add: waiting1_eq samples base_defs promiseOf_def callsOf_def)

subsection \<open>cleanup\<close>

lemma cleanup_loop:
  fixes s :: "'a transport_scheme"
  defines "f \<equiv> (\<lambda>s' (i :: rid, pending). settle pending (Rejected TransportDisconnected) (clearTimeout pending s'))"
  shows "settled (foldl f s ps) = settled s @ map (\<lambda>(i, h). (h, Rejected TransportDisconnected, now s)) ps"
    and "now (foldl f s ps) = now s"
    and "timers (foldl f s ps) = filter (\<lambda>t. fst t \<notin> snd ` set ps) (timers s)"
    and "transport.more (foldl f s ps) = transport.more s"
    and "sends (foldl f s ps) = sends s"
    and "console (foldl f s ps) = console s"
    and "nextHandle (foldl f s ps) = nextHandle s"
    and "requestTimeout (foldl f s ps) = requestTimeout s"
  unfolding f_def
  by (induction ps arbitrary: s) (auto simp: settle_def clearTimeout_def)

lemma cleanup_fields:
  fixes s :: "'a transport_scheme"
  shows "pendingRequests (cleanup s) = []"
    and "connected (cleanup s) = False"
    and "settled (cleanup s) = settled s @ map (\<lambda>(i, h). (h, Rejected TransportDisconnected, now s)) (pendingRequests s)"
    and "timers (cleanup s) = filter (\<lambda>t. fst t \<notin> snd ` set (pendingRequests s)) (timers s)"
    and "now (cleanup s) = now s"
    and "transport.more (cleanup s) = transport.more s"
    and "sends (cleanup s) = sends s"
    and "console (cleanup s) = console s"
    and "nextHandle (cleanup s) = nextHandle s"
    and "requestTimeout (cleanup s) = requestTimeout s"
  by (simp_all add: cleanup_def cleanup_loop)


lemma cleanup_unblocks:
  "(i, h) \<in> set (pendingRequests s) \<Longrightarrow> promiseOf h (cleanup s) \<noteq> None"
  by (force simp: promiseOf_def callsOf_def cleanup_fields filter_empty_conv split: list.splits)

lemma settled_unblocked:
  "h \<in> fst ` set (settled s) \<Longrightarrow> promiseOf h (cleanup s) \<noteq> None"
  by (force simp: promiseOf_def callsOf_def cleanup_fields filter_empty_conv split: list.splits)

subsection \<open>Newline framing\<close>

lemma split_newline_nonempty: "split_newline x \<noteq> []"
  by (induction x) (auto split: list.splits)

lemma split_newline_no_nl: "10 \<notin> set x \<Longrightarrow> split_newline x = [x]"
  by (induction x) auto

lemma last_split_no_nl: "10 \<notin> set (last (split_newline x))"
  by (induction x) (auto simp: split_newline_nonempty split: list.splits)

lemma split_newline_append:
  "split_newline (a @ b) = butlast (split_newline a) @ split_newline (last (split_newline a) @ b)"
proof (induction a)
  case Nil
  then show ?case by simp
next
  case (Cons c a)
  show ?case
  proof (cases "c = 10")
    case True
    then show ?thesis using Cons by (simp add: split_newline_nonempty)
  next
    case False
    obtain l ls where s: "split_newline a = l # ls"
      using split_newline_nonempty[of a] by (cases "split_newline a") auto
    obtain m ms where t: "split_newline (last (split_newline a) @ b) = m # ms"
      using split_newline_nonempty by (metis list.exhaust)
    show ?thesis
    proof (cases ls)
      case Nil
      then show ?thesis using False s t Cons by simp
    next
      case (Cons l' ls')
      then show ?thesis using False s t Cons.IH by simp
    qed
  qed
qed

lemma delivered_eq:
  "10 \<notin> set buf \<Longrightarrow>
   delivered buf chunks = (completeFrames (buf @ concat chunks), last (split_newline (buf @ concat chunks)))"
proof (induction chunks arbitrary: buf)
  case Nil
  then show ?case by (simp add: completeFrames_def split_newline_no_nl)
next
  case (Cons c cs)
  let ?r = "last (split_newline (buf @ c))"
  have r: "10 \<notin> set ?r" by (rule last_split_no_nl)
  have sp: "split_newline (buf @ c @ concat cs)
              = butlast (split_newline (buf @ c)) @ split_newline (?r @ concat cs)"
    using split_newline_append[of "buf @ c" "concat cs"] by simp
  have ne: "split_newline (buf @ c) \<noteq> []" by (rule split_newline_nonempty)
  have pop: "pop (split_newline (buf @ c)) = (?r, butlast (split_newline (buf @ c)))"
    using ne by (simp add: pop_def split: list.splits)
  show ?case
    using Cons.IH[OF r] pop sp
    by (simp add: completeFrames_def split_newline_nonempty butlast_append)
qed

lemma handleResponse_http_buffer:
  "handleResponse parse d (s\<lparr>http_buffer := b\<rparr>) = (handleResponse parse d s)\<lparr>http_buffer := b\<rparr>"
  by (auto simp: handleResponse_def handleResponse_try_def getPending_def deletePending_def
        settle_def clearTimeout_def Let_def split: option.splits sum.splits json.splits)

lemma handleResponse_stdio_buffer:
  "handleResponse parse d (s\<lparr>stdio_buffer := b\<rparr>) = (handleResponse parse d s)\<lparr>stdio_buffer := b\<rparr>"
  by (auto simp: handleResponse_def handleResponse_try_def getPending_def deletePending_def
        settle_def clearTimeout_def Let_def split: option.splits sum.splits json.splits)

lemma handleAll_http_buffer:
  "handleAll parse fs (s\<lparr>http_buffer := b\<rparr>) = (handleAll parse fs s)\<lparr>http_buffer := b\<rparr>"
  by (induction fs arbitrary: s) (simp_all add: handleAll_def handleResponse_http_buffer)

lemma handleAll_stdio_buffer:
  "handleAll parse fs (s\<lparr>stdio_buffer := b\<rparr>) = (handleAll parse fs s)\<lparr>stdio_buffer := b\<rparr>"
  by (induction fs arbitrary: s) (simp_all add: handleAll_def handleResponse_stdio_buffer)

lemma handleAll_append: "handleAll parse (fs @ gs) s = handleAll parse gs (handleAll parse fs s)"
  by (simp add: handleAll_def)

lemma processLines_handleAll:
  "processLines parse lines s = handleAll parse (filter (\<lambda>l. l \<noteq> []) (map trim lines)) s"
  by (induction lines arbitrary: s) (simp_all add: processLines_def handleAll_def Let_def)

lemma http_receive_delivered:
  "http_receive parse s chunks =
     (handleAll parse (fst (delivered (http_buffer s) chunks)) s)
       \<lparr>http_buffer := snd (delivered (http_buffer s) chunks)\<rparr>"
proof (induction chunks arbitrary: s)
  case Nil
  then show ?case by (simp add: http_receive_def handleAll_def)
next
  case (Cons c cs)
  obtain rest lines where p: "pop (split_newline (http_buffer s @ c)) = (rest, lines)"
    by (cases "pop (split_newline (http_buffer s @ c))")
  obtain frames buf' where d: "delivered rest cs = (frames, buf')"
    by (cases "delivered rest cs")
  let ?F = "filter (\<lambda>l. l \<noteq> []) (map trim lines)"
  have one: "HttpStreamTransport_handleStreamData parse c s = (handleAll parse ?F s)\<lparr>http_buffer := rest\<rparr>"
    using p by (simp add: HttpStreamTransport_handleStreamData_def processLines_handleAll handleAll_http_buffer)
  have "http_receive parse s (c # cs) = http_receive parse (HttpStreamTransport_handleStreamData parse c s) cs"
    by (simp add: http_receive_def)
  also have "\<dots> = (handleAll parse frames ((handleAll parse ?F s)\<lparr>http_buffer := rest\<rparr>))\<lparr>http_buffer := buf'\<rparr>"
    using Cons.IH[of "HttpStreamTransport_handleStreamData parse c s"] d one by simp
  also have "\<dots> = (handleAll parse (?F @ frames) s)\<lparr>http_buffer := buf'\<rparr>"
    by (simp add: handleAll_http_buffer handleAll_append)
  finally show ?case using p d by simp
qed

lemma stdio_receive_delivered:
  "stdio_receive parse s chunks =
     (handleAll parse (fst (delivered (stdio_buffer s) chunks)) s)
       \<lparr>stdio_buffer := snd (delivered (stdio_buffer s) chunks)\<rparr>"
proof (induction chunks arbitrary: s)
  case Nil
  then show ?case by (simp add: stdio_receive_def handleAll_def)
next
  case (Cons c cs)
  obtain rest lines where p: "pop (split_newline (stdio_buffer s @ c)) = (rest, lines)"
    by (cases "pop (split_newline (stdio_buffer s @ c))")
  obtain frames buf' where d: "delivered rest cs = (frames, buf')"
    by (cases "delivered rest cs")
  let ?F = "filter (\<lambda>l. l \<noteq> []) (map trim lines)"
  have one: "StdioTransport_handleStreamData parse c s = (handleAll parse ?F s)\<lparr>stdio_buffer := rest\<rparr>"
    using p by (simp add: StdioTransport_handleStreamData_def processLines_handleAll handleAll_stdio_buffer)
  have "stdio_receive parse s (c # cs) = stdio_receive parse (StdioTransport_handleStreamData parse c s) cs"
    by (simp add: stdio_receive_def)
  also have "\<dots> = (handleAll parse frames ((handleAll parse ?F s)\<lparr>stdio_buffer := rest\<rparr>))\<lparr>stdio_buffer := buf'\<rparr>"
    using Cons.IH[of "StdioTransport_handleStreamData parse c s"] d one by simp
  also have "\<dots> = (handleAll parse (?F @ frames) s)\<lparr>stdio_buffer := buf'\<rparr>"
    by (simp add: handleAll_stdio_buffer handleAll_append)
  finally show ?case using p d by simp
qed

lemma buffer_stays_unframed:
  "10 \<notin> set (http_buffer (HttpStreamTransport_handleStreamData parse chunk h))"
  "10 \<notin> set (stdio_buffer (StdioTransport_handleStreamData parse chunk p))"
proof -
  have a: "pop (split_newline x) = (last (split_newline x), butlast (split_newline x))" for x
    using split_newline_nonempty[of x] by (simp add: pop_def split: list.splits)
  show "10 \<notin> set (http_buffer (HttpStreamTransport_handleStreamData parse chunk h))"
    using last_split_no_nl[of "http_buffer h @ chunk"]
    by (simp add: HttpStreamTransport_handleStreamData_def a processLines_handleAll handleAll_http_buffer)
  show "10 \<notin> set (stdio_buffer (StdioTransport_handleStreamData parse chunk p))"
    using last_split_no_nl[of "stdio_buffer p @ chunk"]
    by (simp add: StdioTransport_handleStreamData_def a processLines_handleAll handleAll_stdio_buffer)
qed

text \<open>
  The complete frames of a stream, line by line: a line that ends in a newline gives
  its trimmed text as one frame when that is not empty, and none otherwise, followed
  by the frames of the rest of the stream. So no line is lost, repeated or merged
  with its neighbour.
\<close>

lemma split_newline_line:
  "10 \<notin> set m \<Longrightarrow> split_newline (m @ 10 # rest) = m # split_newline rest"
  by (induction m) (auto split: list.splits)

lemma completeFrames_line:
  "10 \<notin> set m \<Longrightarrow>
   completeFrames (m @ 10 # rest) = (if trim m = [] then [] else [trim m]) @ completeFrames rest"
  by (simp add: completeFrames_def split_newline_line split_newline_nonempty)

text \<open>
  C7. Two ways of cutting the same stream into chunks hand the same frames to
  \<^verbatim>\<open>handleResponse\<close>, in the same order, and leave the same transport, buffer included:
  the frames are the complete, trimmed, non-empty lines of the whole stream, and the
  part after the last newline stays in the buffer. This holds for the streaming-HTTP
  and the process-pipe transport, from any buffer that holds no newline, which is so
  for a new transport and after every chunk.
\<close>

theorem framing_independent_of_chunking:
  assumes "concat chunks = concat chunks'"
  shows "(10 \<notin> set (http_buffer h) \<longrightarrow>
            delivered (http_buffer h) chunks = delivered (http_buffer h) chunks'
            \<and> fst (delivered (http_buffer h) chunks) = completeFrames (http_buffer h @ concat chunks)
            \<and> http_receive parse h chunks = http_receive parse h chunks')
       \<and> http_receive parse h chunks
           = (handleAll parse (fst (delivered (http_buffer h) chunks)) h)
               \<lparr>http_buffer := snd (delivered (http_buffer h) chunks)\<rparr>
       \<and> 10 \<notin> set (http_buffer (HttpStreamTransport_handleStreamData parse chunk h))
       \<and> (10 \<notin> set (stdio_buffer p) \<longrightarrow>
            delivered (stdio_buffer p) chunks = delivered (stdio_buffer p) chunks'
            \<and> fst (delivered (stdio_buffer p) chunks) = completeFrames (stdio_buffer p @ concat chunks)
            \<and> stdio_receive parse p chunks = stdio_receive parse p chunks')
       \<and> stdio_receive parse p chunks
           = (handleAll parse (fst (delivered (stdio_buffer p) chunks)) p)
               \<lparr>stdio_buffer := snd (delivered (stdio_buffer p) chunks)\<rparr>
       \<and> 10 \<notin> set (stdio_buffer (StdioTransport_handleStreamData parse chunk p))"
  using assms
  by (simp add: delivered_eq http_receive_delivered stdio_receive_delivered buffer_stays_unframed)

text \<open>The theorem at the response of id 1, arriving in three fragments.\<close>

lemma fragments_whole: "completeFrames (fragment_a @ fragment_b @ fragment_c) = [text_result1]"
  by (simp add: completeFrames_def fragment_a_def fragment_b_def fragment_c_def text_result1_def trim_def isWhiteSpace_def)

theorem framing_independent_of_chunking_witness:
  "concat [fragment_a, fragment_b, fragment_c] = concat [fragment_a @ fragment_b @ fragment_c]
   \<and> 10 \<notin> set (http_buffer http_waiting1) \<and> 10 \<notin> set (stdio_buffer stdio_waiting1)
   \<and> fst (delivered (http_buffer http_waiting1) [fragment_a, fragment_b, fragment_c]) = [text_result1]
   \<and> http_receive parseSample http_waiting1 [fragment_a, fragment_b, fragment_c]
       = http_receive parseSample http_waiting1 [fragment_a @ fragment_b @ fragment_c]
   \<and> settled (http_receive parseSample http_waiting1 [fragment_a, fragment_b, fragment_c])
       = [(0, Resolved result1, 0)]
   \<and> settled (stdio_receive parseSample stdio_waiting1 [fragment_a, fragment_b, fragment_c])
       = [(0, Resolved result1, 0)]"
proof -
  have c: "concat [fragment_a, fragment_b, fragment_c] = concat [fragment_a @ fragment_b @ fragment_c]"
    by simp
  have b: "http_buffer http_waiting1 = []" "stdio_buffer stdio_waiting1 = []"
    by (simp_all add: http_waiting1_def stdio_waiting1_def transport.defs HttpStreamTransport.defs StdioTransport.defs)
  have nb: "10 \<notin> set (http_buffer http_waiting1)" "10 \<notin> set (stdio_buffer stdio_waiting1)"
    using b by simp_all
  note t = framing_independent_of_chunking[OF c, of http_waiting1 parseSample _ stdio_waiting1]
  have f0: "fst (delivered (http_buffer http_waiting1) [fragment_a, fragment_b, fragment_c])
              = completeFrames (http_buffer http_waiting1 @ concat [fragment_a, fragment_b, fragment_c])"
    "fst (delivered (stdio_buffer stdio_waiting1) [fragment_a, fragment_b, fragment_c])
              = completeFrames (stdio_buffer stdio_waiting1 @ concat [fragment_a, fragment_b, fragment_c])"
    using t nb by blast+
  have f: "fst (delivered (http_buffer http_waiting1) [fragment_a, fragment_b, fragment_c]) = [text_result1]"
    "fst (delivered (stdio_buffer stdio_waiting1) [fragment_a, fragment_b, fragment_c]) = [text_result1]"
    using f0 fragments_whole by (simp_all add: b del: delivered.simps)
  have e: "http_receive parseSample http_waiting1 [fragment_a, fragment_b, fragment_c]
       = http_receive parseSample http_waiting1 [fragment_a @ fragment_b @ fragment_c]"
    using t nb by blast
  have h: "settled (handleResponse parseSample text_result1 s) = [(0, Resolved result1, 0)]"
    if "pendingRequests s = [(NumId 1, 0)]" "settled s = []" "now s = 0" for s :: "'a transport_scheme"
    using that by (simp add: samples base_defs)
  have w: "pendingRequests http_waiting1 = [(NumId 1, 0)]" "settled http_waiting1 = []" "now http_waiting1 = 0"
    "pendingRequests stdio_waiting1 = [(NumId 1, 0)]" "settled stdio_waiting1 = []" "now stdio_waiting1 = 0"
    by (simp_all add: http_waiting1_def stdio_waiting1_def waiting1_eq transport.defs)
  have r: "http_receive parseSample http_waiting1 [fragment_a, fragment_b, fragment_c]
           = (handleAll parseSample (fst (delivered (http_buffer http_waiting1) [fragment_a, fragment_b, fragment_c])) http_waiting1)
               \<lparr>http_buffer := snd (delivered (http_buffer http_waiting1) [fragment_a, fragment_b, fragment_c])\<rparr>"
    "stdio_receive parseSample stdio_waiting1 [fragment_a, fragment_b, fragment_c]
           = (handleAll parseSample (fst (delivered (stdio_buffer stdio_waiting1) [fragment_a, fragment_b, fragment_c])) stdio_waiting1)
               \<lparr>stdio_buffer := snd (delivered (stdio_buffer stdio_waiting1) [fragment_a, fragment_b, fragment_c])\<rparr>"
    using t by blast+
  have s1: "settled (http_receive parseSample http_waiting1 [fragment_a, fragment_b, fragment_c])
       = [(0, Resolved result1, 0)]"
    using h[of http_waiting1] w by (simp add: r(1) f(1) handleAll_def del: delivered.simps)
  have s2: "settled (stdio_receive parseSample stdio_waiting1 [fragment_a, fragment_b, fragment_c])
       = [(0, Resolved result1, 0)]"
    using h[of stdio_waiting1] w by (simp add: r(2) f(2) handleAll_def del: delivered.simps)
  show ?thesis using c nb f(1) e s1 s2 by (simp del: delivered.simps)
qed

lemmas client_defs = McpClient_connect_def connectServer_def createTransport_def given_def
  ITransport_new_def McpClient_new_def transport.defs ITransport.defs promiseAll_def
  BaseTransport_new_def

lemma client_ab_eq:
  "client_ab = \<lparr>servers = [(''a'', transport_a), (''b'', transport_b)], requestIdCounter = 0\<rparr>"
  by (simp add: client_ab_def client_defs config_a_def config_b_def net_up_def transport_a_def
      transport_b_def)

lemma client_ab_a_down_eq:
  "client_ab_a_down = \<lparr>servers = [(''a'', transport_a\<lparr>connected := False\<rparr>), (''b'', transport_b)],
     requestIdCounter = 0\<rparr>"
  by (simp add: client_ab_a_down_def client_ab_eq transportEvent_def cleanup_def transport_a_def)

subsection \<open>The call operations\<close>

lemma callServer_not_found:
  "map_of (servers c) serverName = None \<Longrightarrow>
   callServer serverName method params c = (Failed (ServerNotFound serverName), c)"
  by (simp add: callServer_def)

lemma callServer_not_connected:
  "map_of (servers c) serverName = Some t \<Longrightarrow> \<not> isConnected t \<Longrightarrow>
   callServer serverName method params c
     = (Failed TransportNotConnected, c\<lparr>requestIdCounter := Suc (requestIdCounter c)\<rparr>)"
  by (simp add: callServer_def sendRequest_def isConnected_def createRequest_def generateRequestId_def)

text \<open>
  C8. When the server name is not in the registry, \<^verbatim>\<open>callTool\<close>, \<^verbatim>\<open>readResource\<close> and
  \<^verbatim>\<open>getPrompt\<close> throw \<^verbatim>\<open>Server not found\<close> and leave the client as it was: no request id is
  taken and no transport is touched. When the server is registered and its transport is
  not connected, they throw the \<^verbatim>\<open>Transport not connected\<close> of \<^verbatim>\<open>sendRequest\<close>; a request
  was built (the counter moved by one) and the registry, pending tables included, is as
  it was. In both cases the call has failed when it returns; it is not left waiting.
\<close>

theorem call_fails_at_once:
  "(map_of (servers c) serverName = None \<longrightarrow>
      callTool serverName toolName params c = (Failed (ServerNotFound serverName), c)
      \<and> readResource serverName uri c = (Failed (ServerNotFound serverName), c)
      \<and> getPrompt serverName promptName args c = (Failed (ServerNotFound serverName), c))
   \<and> (\<forall>t. map_of (servers c) serverName = Some t \<and> \<not> isConnected t \<longrightarrow>
      callTool serverName toolName params c
        = (Failed TransportNotConnected, c\<lparr>requestIdCounter := Suc (requestIdCounter c)\<rparr>)
      \<and> readResource serverName uri c
        = (Failed TransportNotConnected, c\<lparr>requestIdCounter := Suc (requestIdCounter c)\<rparr>)
      \<and> getPrompt serverName promptName args c
        = (Failed TransportNotConnected, c\<lparr>requestIdCounter := Suc (requestIdCounter c)\<rparr>))"
  by (auto simp: callTool_def readResource_def getPrompt_def callServer_not_found
      callServer_not_connected)

text \<open>The theorem at an unknown server name and at the server whose transport died.\<close>

theorem call_fails_at_once_witness:
  "map_of (servers client_ab) ''c'' = None
   \<and> callTool ''c'' ''echo'' None client_ab = (Failed (ServerNotFound ''c''), client_ab)
   \<and> readResource ''c'' ''file:///x'' client_ab = (Failed (ServerNotFound ''c''), client_ab)
   \<and> getPrompt ''c'' ''p'' None client_ab = (Failed (ServerNotFound ''c''), client_ab)
   \<and> map_of (servers client_ab_a_down) ''a'' = Some (transport_a\<lparr>connected := False\<rparr>)
   \<and> \<not> isConnected (transport_a\<lparr>connected := False\<rparr>)
   \<and> callTool ''a'' ''echo'' None client_ab_a_down
       = (Failed TransportNotConnected, client_ab_a_down\<lparr>requestIdCounter := 1\<rparr>)
   \<and> servers (snd (readResource ''a'' ''file:///x'' client_ab_a_down)) = servers client_ab_a_down
   \<and> fst (getPrompt ''a'' ''p'' None client_ab_a_down) = Failed TransportNotConnected"
proof -
  have a: "map_of (servers client_ab) ''c'' = None"
    by (simp add: client_ab_eq)
  have b: "map_of (servers client_ab_a_down) ''a'' = Some (transport_a\<lparr>connected := False\<rparr>)"
    "\<not> isConnected (transport_a\<lparr>connected := False\<rparr>)"
    by (simp_all add: client_ab_a_down_eq isConnected_def)
  have k: "requestIdCounter client_ab_a_down = 0"
    by (simp add: client_ab_a_down_eq)
  note t1 = call_fails_at_once[of client_ab "''c''" "''echo''" None "''file:///x''" "''p''" None]
  note t2 = call_fails_at_once[of client_ab_a_down "''a''" "''echo''" None "''file:///x''" "''p''" None]
  show ?thesis
    using t1 t2 a b k by simp
qed

subsection \<open>The registry\<close>

lemma transportEvent_keys:
  "getConnectedServers (transportEvent parse n e c) = getConnectedServers c"
  by (simp add: getConnectedServers_def transportEvent_def comp_def case_prod_unfold)

lemma map_of_transportEvent:
  "map_of (servers (transportEvent parse n e c)) k
     = (if k = n then map_option (\<lambda>t. step parse t e) (map_of (servers c) k) else map_of (servers c) k)"
proof -
  have "map_of (map (\<lambda>(na, t). if na = n then (na, f t) else (na, t)) xs) k
          = (if k = n then map_option f (map_of xs k) else map_of xs k)" for f :: "ITransport \<Rightarrow> ITransport" and xs
    by (induction xs) auto
  then show ?thesis by (simp add: transportEvent_def)
qed

lemma issueAll_keys: "map fst (fst (snd (issueAll method reg k))) = map fst reg"
  by (induction reg arbitrary: k) (auto simp: case_prod_unfold Let_def)

lemma issueAll_not_connected:
  "(n, t) \<in> set reg \<Longrightarrow> \<not> connected t \<Longrightarrow>
   (n, Inl TransportNotConnected) \<in> set (fst (issueAll method reg k))"
  by (induction reg arbitrary: k) (auto simp: case_prod_unfold Let_def sendRequest_def)

lemma callServer_keys:
  "getConnectedServers (snd (callServer serverName method params c)) = getConnectedServers c"
proof -
  have "map fst (AList.update k v' xs) = map fst xs" if "map_of xs k = Some v"
    for k :: string and v v' :: ITransport and xs
    using map_of_SomeD[OF that] by (force simp: AList.update_keys)
  then show ?thesis
    by (auto simp: callServer_def getConnectedServers_def Let_def case_prod_unfold
        split: option.splits sum.splits)
qed

lemma connectAll_keeps: "set (map fst reg) \<subseteq> set (map fst (snd (connectAll entries net reg)))"
proof (induction entries arbitrary: reg)
  case Nil
  then show ?case by simp
next
  case (Cons e es)
  obtain n cfg where e: "e = (n, cfg)" by (cases e)
  have "set (map fst reg) \<subseteq> set (map fst (snd (connectServer n cfg (net n) reg)))"
    by (auto simp: connectServer_def AList.dom_update split: sum.splits connectOutcome.splits)
  then show ?case
    using Cons.IH[of "snd (connectServer n cfg (net n) reg)"] e
    by (auto simp: case_prod_unfold Let_def)
qed

lemma issue_keys: "getConnectedServers (snd (issue meth c)) = getConnectedServers c"
  using issueAll_keys[of meth "servers c" "requestIdCounter c"]
  by (simp add: issue_def getConnectedServers_def case_prod_unfold Let_def)

lemma connect_keeps:
  "set (getConnectedServers c) \<subseteq> set (getConnectedServers (snd (McpClient_connect loaded net c)))"
  using connectAll_keeps
  by (auto simp: McpClient_connect_def getConnectedServers_def case_prod_unfold Let_def
      split: sum.splits option.splits)

lemma dead_transport:
  assumes "name \<in> set (getConnectedServers c)"
  shows "\<exists>t. map_of (servers (transportEvent parse name Cleanup c)) name = Some t \<and> \<not> isConnected t
           \<and> (name, t) \<in> set (servers (transportEvent parse name Cleanup c))"
proof -
  obtain t where t: "map_of (servers c) name = Some t"
    using assms by (force simp: getConnectedServers_def map_of_eq_None_iff)
  have "map_of (servers (transportEvent parse name Cleanup c)) name = Some (cleanup t)"
    using t by (simp add: map_of_transportEvent)
  moreover have "\<not> isConnected (cleanup t)"
    by (simp add: isConnected_def cleanup_fields)
  ultimately show ?thesis
    using map_of_SomeD by fastforce
qed

text \<open>
  C10. After the \<^verbatim>\<open>cleanup\<close> of the transport of a registered server, the server is still
  listed by \<^verbatim>\<open>getConnectedServers\<close>, \<^verbatim>\<open>isServerConnected\<close> is false for it, the call
  operations on it fail with \<^verbatim>\<open>Transport not connected\<close>, and the list operations still
  call \<^verbatim>\<open>sendRequest\<close> on it and get the same error. No event on a transport changes the
  names registered; \<^verbatim>\<open>connect\<close> keeps them, the call and list operations keep them; the
  client's own \<^verbatim>\<open>disconnect\<close> empties the registry.
\<close>

theorem registry_outlives_transport:
  assumes "name \<in> set (getConnectedServers c)"
  shows "getConnectedServers (transportEvent parse name Cleanup c) = getConnectedServers c
       \<and> \<not> isServerConnected (transportEvent parse name Cleanup c) name
       \<and> fst (callTool name toolName params (transportEvent parse name Cleanup c))
           = Failed TransportNotConnected
       \<and> fst (readResource name uri (transportEvent parse name Cleanup c))
           = Failed TransportNotConnected
       \<and> fst (getPrompt name promptName args (transportEvent parse name Cleanup c))
           = Failed TransportNotConnected
       \<and> (name, Inl TransportNotConnected)
           \<in> set (fst (listTools_issue (transportEvent parse name Cleanup c)))
       \<and> (name, Inl TransportNotConnected)
           \<in> set (fst (listResources_issue (transportEvent parse name Cleanup c)))
       \<and> (name, Inl TransportNotConnected)
           \<in> set (fst (listPrompts_issue (transportEvent parse name Cleanup c)))
       \<and> getConnectedServers (transportEvent parse n e c) = getConnectedServers c
       \<and> set (getConnectedServers c)
           \<subseteq> set (getConnectedServers (snd (McpClient_connect loaded net c)))
       \<and> getConnectedServers (snd (callTool n toolName params c)) = getConnectedServers c
       \<and> getConnectedServers (snd (readResource n uri c)) = getConnectedServers c
       \<and> getConnectedServers (snd (getPrompt n promptName args c)) = getConnectedServers c
       \<and> getConnectedServers (snd (listTools_issue c)) = getConnectedServers c
       \<and> getConnectedServers (snd (listResources_issue c)) = getConnectedServers c
       \<and> getConnectedServers (snd (listPrompts_issue c)) = getConnectedServers c
       \<and> getConnectedServers (snd (McpClient_disconnect c)) = []"
proof -
  let ?c = "transportEvent parse name Cleanup c"
  obtain t where t: "map_of (servers ?c) name = Some t" "\<not> isConnected t" "(name, t) \<in> set (servers ?c)"
    using dead_transport[OF assms] by blast
  have 1: "\<not> isServerConnected ?c name"
    using t by (simp add: isServerConnected_def)
  have 2: "fst (callServer name meth ps ?c) = Failed TransportNotConnected" for meth ps
    using callServer_not_connected[OF t(1,2)] by simp
  have 3: "(name, Inl TransportNotConnected) \<in> set (fst (issue meth ?c))" for meth
    using issueAll_not_connected[OF t(3), of meth "requestIdCounter ?c"] t(2)
    by (simp add: issue_def isConnected_def case_prod_unfold Let_def)
  show ?thesis
    using 1 2 3
    by (simp add: transportEvent_keys connect_keeps callServer_keys issue_keys callTool_def
        readResource_def getPrompt_def listTools_issue_def listResources_issue_def
        listPrompts_issue_def McpClient_disconnect_def getConnectedServers_def[of "_\<lparr>servers := []\<rparr>"])
qed

text \<open>The theorem at the client with two servers, when the transport of \<open>a\<close> dies.\<close>

theorem registry_outlives_transport_witness:
  "''a'' \<in> set (getConnectedServers client_ab)
   \<and> getConnectedServers (transportEvent parseSample ''a'' Cleanup client_ab) = [''a'', ''b'']
   \<and> \<not> isServerConnected (transportEvent parseSample ''a'' Cleanup client_ab) ''a''
   \<and> isServerConnected (transportEvent parseSample ''a'' Cleanup client_ab) ''b''
   \<and> fst (callTool ''a'' ''echo'' None (transportEvent parseSample ''a'' Cleanup client_ab))
       = Failed TransportNotConnected
   \<and> (''a'', Inl TransportNotConnected)
       \<in> set (fst (listTools_issue (transportEvent parseSample ''a'' Cleanup client_ab)))
   \<and> getConnectedServers (snd (McpClient_disconnect client_ab)) = []"
proof -
  have a: "''a'' \<in> set (getConnectedServers client_ab)"
    "getConnectedServers client_ab = [''a'', ''b'']"
    by (simp_all add: client_ab_eq getConnectedServers_def)
  have b: "isServerConnected (transportEvent parseSample ''a'' Cleanup client_ab) ''b''"
    using client_ab_a_down_eq
    by (simp add: client_ab_a_down_def isServerConnected_def isConnected_def transport_b_def)
  note t = registry_outlives_transport[OF a(1), of parseSample "''echo''" None "''x''" "''p''" None
             "''a''" Cleanup "Inl SyntaxError" net_up]
  show ?thesis
    using t a b by simp
qed

subsection \<open>The list operations\<close>



lemma allSettled_Inr: "allSettled (map Inr xs) = Inr xs"
  by (induction xs) auto








subsection \<open>connect\<close>

lemma connectServer_keys:
  "fst ` set (snd (connectServer n cfg (net n) reg))
     = fst ` set reg \<union> (if connectSucceeds net (n, cfg) then {n} else {})"
  by (auto simp: connectServer_def connectSucceeds_def AList.dom_update
      split: sum.splits connectOutcome.splits)

lemma connectAll_keys:
  "fst ` set (snd (connectAll entries net reg))
     = fst ` set reg \<union> {n. \<exists>cfg. (n, cfg) \<in> set entries \<and> connectSucceeds net (n, cfg)}"
proof (induction entries arbitrary: reg)
  case Nil
  then show ?case by simp
next
  case (Cons e es)
  obtain n cfg where e: "e = (n, cfg)" by (cases e)
  show ?case
    using Cons.IH[of "snd (connectServer n cfg (net n) reg)"] connectServer_keys[of n cfg net reg]
    by (auto simp: e case_prod_unfold Let_def split: if_splits)
qed

lemma connectServer_keeps_connected:
  assumes "\<exists>t. map_of reg k = Some t \<and> connected t"
  shows "\<exists>t. map_of (snd (connectServer n cfg out reg)) k = Some t \<and> connected t"
  using assms
  by (auto simp: connectServer_def AList.update_conv' split: sum.splits connectOutcome.splits)

lemma connectAll_keeps_connected:
  assumes "\<exists>t. map_of reg k = Some t \<and> connected t"
  shows "\<exists>t. map_of (snd (connectAll entries net reg)) k = Some t \<and> connected t"
  using assms
proof (induction entries arbitrary: reg)
  case Nil
  then show ?case by simp
next
  case (Cons e es)
  obtain n cfg where e: "e = (n, cfg)" by (cases e)
  show ?case
    using Cons.IH[OF connectServer_keeps_connected[OF Cons.prems, of n cfg "net n"]]
    by (simp add: e case_prod_unfold Let_def)
qed

lemma connectAll_connected:
  assumes "(n, cfg) \<in> set entries" "connectSucceeds net (n, cfg)"
  shows "\<exists>t. map_of (snd (connectAll entries net reg)) n = Some t \<and> connected t"
  using assms
proof (induction entries arbitrary: reg)
  case Nil
  then show ?case by simp
next
  case (Cons e es)
  obtain m cfg' where e: "e = (m, cfg')" by (cases e)
  show ?case
  proof (cases "e = (n, cfg)")
    case True
    then have "\<exists>t. map_of (snd (connectServer n cfg (net n) reg)) n = Some t \<and> connected t"
      using Cons.prems(2)
      by (auto simp: connectServer_def connectSucceeds_def AList.update_conv' split: sum.splits)
    then show ?thesis
      using connectAll_keeps_connected[of "snd (connectServer n cfg (net n) reg)" n es net] True
      by (simp add: case_prod_unfold Let_def)
  next
    case False
    then have "(n, cfg) \<in> set es" using Cons.prems(1) by simp
    then show ?thesis
      using Cons.IH[of "snd (connectServer m cfg' (net m) reg)"] Cons.prems(2)
      by (simp add: e case_prod_unfold Let_def)
  qed
qed

lemma connectAll_promises:
  "fst (connectAll entries net reg)
     = map (\<lambda>(n, cfg). fst (connectServer n cfg (net n) [])) entries"
proof (induction entries arbitrary: reg)
  case Nil
  then show ?case by simp
next
  case (Cons e es)
  obtain n cfg where e: "e = (n, cfg)" by (cases e)
  have "fst (connectServer n cfg (net n) reg) = fst (connectServer n cfg (net n) [])"
    by (simp add: connectServer_def split: sum.splits connectOutcome.splits)
  then show ?case
    using Cons.IH by (simp add: e case_prod_unfold Let_def)
qed

lemma promiseAll_rejected:
  assumes "RejectedWith e \<in> set ps"
  shows "\<exists>e'. promiseAll ps = RejectedWith e'"
proof -
  have "filter (\<lambda>p. p \<noteq> Fulfilled \<and> p \<noteq> Unsettled) ps \<noteq> []"
    using assms by (auto simp: filter_empty_conv)
  then obtain p qs where f: "filter (\<lambda>p. p \<noteq> Fulfilled \<and> p \<noteq> Unsettled) ps = p # qs"
    by (cases "filter (\<lambda>p. p \<noteq> Fulfilled \<and> p \<noteq> Unsettled) ps") auto
  then have "p \<in> set (filter (\<lambda>p. p \<noteq> Fulfilled \<and> p \<noteq> Unsettled) ps)" by simp
  then have "p \<noteq> Fulfilled \<and> p \<noteq> Unsettled" by simp
  then obtain e' where "p = RejectedWith e'" by (cases p) auto
  then show ?thesis using f by (simp add: promiseAll_def)
qed

lemma connectFails_rejects:
  assumes "connectFails net (n, cfg)"
  shows "\<exists>e. fst (connectServer n cfg (net n) []) = RejectedWith e"
  using assms
  by (auto simp: connectFails_def connectServer_def split: sum.splits connectOutcome.splits)

subsection \<open>Timers\<close>

lemma timerCallback_fields:
  "timers (timerCallback h i s) = timers s"
  "pendingRequests (timerCallback h i s) = AList.delete i (pendingRequests s)"
  "settled (timerCallback h i s) = settled s @ [(h, Rejected (RequestTimedOut i (requestTimeout s)), now s)]"
  "now (timerCallback h i s) = now s"
  "requestTimeout (timerCallback h i s) = requestTimeout s"
  "connected (timerCallback h i s) = connected s"
  "sends (timerCallback h i s) = sends s"
  "nextHandle (timerCallback h i s) = nextHandle s"
  "console (timerCallback h i s) = console s"
  "transport.more (timerCallback h i s) = transport.more s"
  by (simp_all add: timerCallback_def settle_def Let_def)

lemma fireTimers_closed:
  assumes "distinct (map fst ts)" "fst ` set ts \<subseteq> fst ` set (timers s)"
    and "sorted (map (\<lambda>x. snd (snd x)) ts)" "\<forall>x \<in> set ts. now s \<le> snd (snd x)"
  shows "timers (fireTimers ts s) = filter (\<lambda>x. fst x \<notin> fst ` set ts) (timers s)
       \<and> pendingRequests (fireTimers ts s)
           = filter (\<lambda>p. fst p \<notin> (\<lambda>x. fst (snd x)) ` set ts) (pendingRequests s)
       \<and> settled (fireTimers ts s)
           = settled s @ map (\<lambda>(h, i, d). (h, Rejected (RequestTimedOut i (requestTimeout s)), d)) ts
       \<and> now (fireTimers ts s) = (if ts = [] then now s else snd (snd (last ts)))
       \<and> requestTimeout (fireTimers ts s) = requestTimeout s
       \<and> connected (fireTimers ts s) = connected s
       \<and> sends (fireTimers ts s) = sends s
       \<and> nextHandle (fireTimers ts s) = nextHandle s
       \<and> console (fireTimers ts s) = console s
       \<and> transport.more (fireTimers ts s) = transport.more s"
  using assms
proof (induction ts arbitrary: s)
  case Nil
  then show ?case by simp
next
  case (Cons x ts)
  obtain h i d where x: "x = (h, i, d)" by (cases x)
  let ?s = "timerCallback h i (clearTimeout h (s\<lparr>now := max (now s) d\<rparr>))"
  have armed: "h \<in> fst ` set (timers s)" using Cons.prems(2) x by auto
  have st: "fireTimers (x # ts) s = fireTimers ts ?s"
    using armed x by simp
  have nd: "max (now s) d = d" using Cons.prems(4) x by simp
  have f: "timers ?s = filter (\<lambda>t. fst t \<noteq> h) (timers s)"
    "pendingRequests ?s = AList.delete i (pendingRequests s)"
    "settled ?s = settled s @ [(h, Rejected (RequestTimedOut i (requestTimeout s)), d)]"
    "now ?s = d" "requestTimeout ?s = requestTimeout s" "connected ?s = connected s"
    "sends ?s = sends s" "nextHandle ?s = nextHandle s" "console ?s = console s"
    "transport.more ?s = transport.more s"
    by (simp_all add: timerCallback_fields clearTimeout_def nd)
  have nh: "\<forall>y \<in> set ts. fst y \<noteq> h" using Cons.prems(1) x by auto
  have p1: "distinct (map fst ts)" using Cons.prems(1) by simp
  have p2: "fst ` set ts \<subseteq> fst ` set (timers ?s)"
  proof
    fix k assume "k \<in> fst ` set ts"
    then have "k \<in> fst ` set (timers s)" "k \<noteq> h" using Cons.prems(2) nh by auto
    then show "k \<in> fst ` set (timers ?s)" unfolding f(1) by auto
  qed
  have p3: "sorted (map (\<lambda>x. snd (snd x)) ts)" using Cons.prems(3) by simp
  have p4: "\<forall>y \<in> set ts. now ?s \<le> snd (snd y)"
    using Cons.prems(3) x f(4) by simp
  note IH = Cons.IH[OF p1 p2 p3 p4]
  have 1: "timers (fireTimers ts ?s) = filter (\<lambda>y. fst y \<notin> fst ` set (x # ts)) (timers s)"
  proof -
    have "timers (fireTimers ts ?s) = filter (\<lambda>x. fst x \<notin> fst ` set ts) (timers ?s)"
      using IH by blast
    then show ?thesis
      unfolding f(1) by (auto simp: x intro: filter_cong)
  qed
  have 2: "pendingRequests (fireTimers ts ?s)
           = filter (\<lambda>p. fst p \<notin> (\<lambda>x. fst (snd x)) ` set (x # ts)) (pendingRequests s)"
  proof -
    have "pendingRequests (fireTimers ts ?s)
            = filter (\<lambda>p. fst p \<notin> (\<lambda>x. fst (snd x)) ` set ts) (pendingRequests ?s)"
      using IH by blast
    then show ?thesis
      unfolding f(2) by (auto simp: x AList.delete_eq case_prod_unfold intro: filter_cong)
  qed
  have 3: "settled (fireTimers ts ?s)
           = settled s @ map (\<lambda>(h, i, d). (h, Rejected (RequestTimedOut i (requestTimeout s)), d)) (x # ts)"
    using IH unfolding f(3) f(5) by (simp add: x)
  have 4: "now (fireTimers ts ?s) = snd (snd (last (x # ts)))"
    using IH unfolding f(4) by (simp add: x)
  show ?case
    unfolding st using 1 2 3 4 IH f(5-10) by simp
qed

lemma distinct_fst_eq:
  "distinct (map fst xs) \<Longrightarrow> x \<in> set xs \<Longrightarrow> y \<in> set xs \<Longrightarrow> fst x = fst y \<Longrightarrow> x = y"
  by (auto simp: distinct_map dest: inj_onD)

lemma due_timers:
  fixes t :: nat
  assumes "orderly s"
  defines "due \<equiv> filter (\<lambda>(h, i, d). d \<le> t) (timers s)"
  shows "distinct (map fst due)" "fst ` set due \<subseteq> fst ` set (timers s)"
    "sorted (map (\<lambda>x. snd (snd x)) due)" "\<forall>x \<in> set due. now s \<le> snd (snd x)"
    "filter (\<lambda>x. fst x \<notin> fst ` set due) (timers s) = filter (\<lambda>x. \<not> snd (snd x) \<le> t) (timers s)"
proof -
  have d: "distinct (map fst (timers s))" and o: "sorted (map (\<lambda>x. snd (snd x)) (timers s))"
    and n: "\<forall>x \<in> set (timers s). now s \<le> snd (snd x)"
    using assms(1) by (auto simp: orderly_def)
  show "distinct (map fst due)" unfolding due_def using d by (rule distinct_map_filter)
  show "fst ` set due \<subseteq> fst ` set (timers s)" unfolding due_def by auto
  show "sorted (map (\<lambda>x. snd (snd x)) due)" unfolding due_def using o by (rule sorted_filter)
  show "\<forall>x \<in> set due. now s \<le> snd (snd x)" unfolding due_def using n by auto
  have "fst x \<in> fst ` set due \<longleftrightarrow> snd (snd x) \<le> t" if "x \<in> set (timers s)" for x
  proof
    assume "fst x \<in> fst ` set due"
    then obtain y where y: "y \<in> set (timers s)" "snd (snd y) \<le> t" "fst y = fst x"
      unfolding due_def by (auto simp: case_prod_unfold)
    then have "y = x" using distinct_fst_eq[OF d _ that] by simp
    then show "snd (snd x) \<le> t" using y by simp
  next
    assume "snd (snd x) \<le> t"
    then have "x \<in> set due" unfolding due_def using that by (auto simp: case_prod_unfold)
    then show "fst x \<in> fst ` set due" by blast
  qed
  then show "filter (\<lambda>x. fst x \<notin> fst ` set due) (timers s) = filter (\<lambda>x. \<not> snd (snd x) \<le> t) (timers s)"
    by (intro filter_cong refl) simp
qed

lemma advance_fields:
  assumes "orderly s"
  shows "timers (advance t s) = filter (\<lambda>x. \<not> snd (snd x) \<le> t) (timers s)"
    and "pendingRequests (advance t s)
           = filter (\<lambda>p. fst p \<notin> (\<lambda>x. fst (snd x)) ` set (filter (\<lambda>(h, i, d). d \<le> t) (timers s)))
               (pendingRequests s)"
    and "settled (advance t s)
           = settled s @ map (\<lambda>(h, i, d). (h, Rejected (RequestTimedOut i (requestTimeout s)), d))
                           (filter (\<lambda>(h, i, d). d \<le> t) (timers s))"
    and "now (advance t s) = max (now s) t"
    and "requestTimeout (advance t s) = requestTimeout s"
    and "connected (advance t s) = connected s"
    and "sends (advance t s) = sends s"
    and "nextHandle (advance t s) = nextHandle s"
    and "console (advance t s) = console s"
    and "transport.more (advance t s) = transport.more s"
proof -
  let ?due = "filter (\<lambda>(h, i, d). d \<le> t) (timers s)"
  note c = fireTimers_closed[OF due_timers(1-4)[OF assms, of t]]
  show "timers (advance t s) = filter (\<lambda>x. \<not> snd (snd x) \<le> t) (timers s)"
    using c due_timers(5)[OF assms, of t] by (simp add: advance_def)
  show "pendingRequests (advance t s)
           = filter (\<lambda>p. fst p \<notin> (\<lambda>x. fst (snd x)) ` set ?due) (pendingRequests s)"
    using c by (simp add: advance_def)
  show "settled (advance t s)
           = settled s @ map (\<lambda>(h, i, d). (h, Rejected (RequestTimedOut i (requestTimeout s)), d)) ?due"
    using c by (simp add: advance_def)
  have "snd (snd (last ?due)) \<le> t" if "?due \<noteq> []"
    using last_in_set[OF that] by (auto simp: case_prod_unfold)
  moreover have "now s \<le> snd (snd (last ?due))" if "?due \<noteq> []"
    using last_in_set[OF that] due_timers(4)[OF assms, of t] by blast
  ultimately show "now (advance t s) = max (now s) t"
    using c by (auto simp: advance_def)
  show "requestTimeout (advance t s) = requestTimeout s" "connected (advance t s) = connected s"
    "sends (advance t s) = sends s" "nextHandle (advance t s) = nextHandle s"
    "console (advance t s) = console s" "transport.more (advance t s) = transport.more s"
    using c by (simp_all add: advance_def)
qed

subsection \<open>Every reachable state is orderly\<close>

lemma set_update_subset: "set (AList.update k v xs) \<subseteq> insert (k, v) (set xs)"
  by (induction xs) auto

lemma set_delete_subset: "set (AList.delete k xs) \<subseteq> set xs"
  by (auto simp: AList.delete_eq)

lemma orderly_new:
  "pendingRequests s = [] \<Longrightarrow> timers s = [] \<Longrightarrow> settled s = [] \<Longrightarrow> sends s = [] \<Longrightarrow> orderly s"
  by (simp add: orderly_def)

lemma orderly_sendRequest:
  assumes "orderly s" "sendRequest r s = Inr (h, s')"
  shows "orderly s'"
proof -
  have c: "connected s" and h: "h = nextHandle s"
    and f: "timers s' = timers s @ [(h, req_id r, now s + requestTimeout s)]"
      "pendingRequests s' = AList.update (req_id r) h (pendingRequests s)"
      "sends s' = sends s @ [(h, r)]" "settled s' = settled s" "now s' = now s"
      "nextHandle s' = Suc h" "requestTimeout s' = requestTimeout s"
    using assms(2) by (auto simp: sendRequest_def Let_def split: if_splits)
  note o = assms(1)[unfolded orderly_def]
  have 1: "distinct (map fst (pendingRequests s'))"
    using o by (simp add: f AList.distinct_update)
  have fresh: "\<forall>x \<in> set (timers s). fst x \<noteq> h" using o h by auto
  have 2: "distinct (map fst (timers s'))"
    using o fresh by (auto simp: f)
  have 3: "sorted (map (\<lambda>x. snd (snd x)) (timers s'))"
    using o by (auto simp: f sorted_append)
  have 4: "\<forall>p \<in> set (pendingRequests s'). \<exists>d. (snd p, fst p, d) \<in> set (timers s')"
  proof
    fix p assume "p \<in> set (pendingRequests s')"
    then have "p = (req_id r, h) \<or> p \<in> set (pendingRequests s)"
      using set_update_subset[of "req_id r" h "pendingRequests s"] by (auto simp: f)
    then show "\<exists>d. (snd p, fst p, d) \<in> set (timers s')"
      using o by (auto simp: f)
  qed
  have 5: "\<forall>x \<in> set (timers s'). fst x < nextHandle s' \<and> now s' \<le> snd (snd x)
           \<and> snd (snd x) \<le> now s' + requestTimeout s' \<and> fst x \<notin> fst ` set (settled s')"
    using o h by (auto simp: f less_Suc_eq)
  have 6: "\<forall>c \<in> set (settled s'). fst c < nextHandle s'"
    using o h by (auto simp: f less_Suc_eq)
  have 7: "\<forall>m \<in> set (sends s'). fst m < nextHandle s'
           \<and> (\<forall>x \<in> set (timers s'). fst x = fst m \<longrightarrow> fst (snd x) = req_id (snd m))"
    using o h fresh by (auto simp: f less_Suc_eq)
  show ?thesis
    unfolding orderly_def using 1 2 3 4 5 6 7 by blast
qed

lemma table_waiter_unique:
  assumes "orderly s" "(i, h) \<in> set (pendingRequests s)" "(i', h) \<in> set (pendingRequests s)"
  shows "i' = i"
proof -
  note o = assms(1)[unfolded orderly_def]
  have "\<forall>p \<in> set (pendingRequests s). \<exists>d. (snd p, fst p, d) \<in> set (timers s)"
    using o by blast
  then obtain d d' where "(h, i, d) \<in> set (timers s)" "(h, i', d') \<in> set (timers s)"
    using assms(2,3) by fastforce
  then show ?thesis
    using distinct_fst_eq[of "timers s" "(h, i, d)" "(h, i', d')"] o by simp
qed

lemma orderly_remove:
  assumes "orderly s"
    and t: "timers s' = filter (\<lambda>x. fst x \<noteq> h) (timers s)"
    and p: "set (pendingRequests s') \<subseteq> set (pendingRequests s)"
      "distinct (map fst (pendingRequests s'))" "\<forall>p \<in> set (pendingRequests s'). snd p \<noteq> h"
    and c: "fst ` set (settled s') \<subseteq> insert h (fst ` set (settled s))"
    and m: "set (sends s') \<subseteq> set (sends s)"
    and n: "now s' = now s" "nextHandle s' = nextHandle s" "requestTimeout s' = requestTimeout s"
    and k: "h < nextHandle s"
  shows "orderly s'"
proof -
  note o = assms(1)[unfolded orderly_def]
  have 2: "distinct (map fst (timers s'))"
    unfolding t using o by (simp add: distinct_map_filter)
  have 3: "sorted (map (\<lambda>x. snd (snd x)) (timers s'))"
    unfolding t using o by (simp add: sorted_filter)
  have 4: "\<forall>p \<in> set (pendingRequests s'). \<exists>d. (snd p, fst p, d) \<in> set (timers s')"
  proof
    fix q assume q: "q \<in> set (pendingRequests s')"
    then have "q \<in> set (pendingRequests s)" "snd q \<noteq> h" using p(1,3) by auto
    then obtain d where "(snd q, fst q, d) \<in> set (timers s)" using o by blast
    then show "\<exists>d. (snd q, fst q, d) \<in> set (timers s')"
      unfolding t using \<open>snd q \<noteq> h\<close> by auto
  qed
  have o5: "\<forall>x \<in> set (timers s). fst x < nextHandle s \<and> now s \<le> snd (snd x)
           \<and> snd (snd x) \<le> now s + requestTimeout s \<and> fst x \<notin> fst ` set (settled s)"
    and o6: "\<forall>c \<in> set (settled s). fst c < nextHandle s"
    and o7: "\<forall>m \<in> set (sends s). fst m < nextHandle s
           \<and> (\<forall>x \<in> set (timers s). fst x = fst m \<longrightarrow> fst (snd x) = req_id (snd m))"
    using o by blast+
  have 5: "\<forall>x \<in> set (timers s'). fst x < nextHandle s' \<and> now s' \<le> snd (snd x)
           \<and> snd (snd x) \<le> now s' + requestTimeout s' \<and> fst x \<notin> fst ` set (settled s')"
  proof
    fix x assume "x \<in> set (timers s')"
    then have x: "x \<in> set (timers s)" "fst x \<noteq> h" unfolding t by auto
    then have "fst x \<notin> fst ` set (settled s')" using o5 c by blast
    then show "fst x < nextHandle s' \<and> now s' \<le> snd (snd x)
           \<and> snd (snd x) \<le> now s' + requestTimeout s' \<and> fst x \<notin> fst ` set (settled s')"
      unfolding n using o5 x(1) by blast
  qed
  have 6: "\<forall>c \<in> set (settled s'). fst c < nextHandle s'"
  proof
    fix y assume "y \<in> set (settled s')"
    then have "fst y = h \<or> fst y \<in> fst ` set (settled s)" using c by blast
    then show "fst y < nextHandle s'" unfolding n using o6 k by auto
  qed
  have 7: "\<forall>m \<in> set (sends s'). fst m < nextHandle s'
           \<and> (\<forall>x \<in> set (timers s'). fst x = fst m \<longrightarrow> fst (snd x) = req_id (snd m))"
  proof
    fix y assume "y \<in> set (sends s')"
    then have y: "y \<in> set (sends s)" using m by blast
    show "fst y < nextHandle s'
           \<and> (\<forall>x \<in> set (timers s'). fst x = fst y \<longrightarrow> fst (snd x) = req_id (snd y))"
      unfolding t n using o7 y by auto
  qed
  show ?thesis
    unfolding orderly_def using p(2) 2 3 4 5 6 7 by blast
qed

lemma orderlyD:
  assumes "orderly s"
  shows "distinct (map fst (pendingRequests s))"
    and "distinct (map fst (timers s))"
    and "sorted (map (\<lambda>x. snd (snd x)) (timers s))"
    and "p \<in> set (pendingRequests s) \<Longrightarrow> \<exists>d. (snd p, fst p, d) \<in> set (timers s)"
    and "x \<in> set (timers s) \<Longrightarrow> fst x < nextHandle s"
    and "x \<in> set (timers s) \<Longrightarrow> now s \<le> snd (snd x)"
    and "x \<in> set (timers s) \<Longrightarrow> snd (snd x) \<le> now s + requestTimeout s"
    and "x \<in> set (timers s) \<Longrightarrow> fst x \<notin> fst ` set (settled s)"
    and "c \<in> set (settled s) \<Longrightarrow> fst c < nextHandle s"
    and "m \<in> set (sends s) \<Longrightarrow> fst m < nextHandle s"
    and "m \<in> set (sends s) \<Longrightarrow> x \<in> set (timers s) \<Longrightarrow> fst x = fst m \<Longrightarrow> fst (snd x) = req_id (snd m)"
  using assms unfolding orderly_def by blast+

lemma orderly_sendMessageFailed:
  assumes "orderly s"
  shows "orderly (sendMessageFailed h e s)"
proof (cases "map_of (sends s) h")
  case None
  then show ?thesis using assms by (simp add: sendMessageFailed_def)
next
  case (Some r)
  let ?s = "sendMessageFailed h e s"
  have f: "timers ?s = filter (\<lambda>x. fst x \<noteq> h) (timers s)"
    "pendingRequests ?s = AList.delete (req_id r) (pendingRequests s)"
    "settled ?s = settled s @ [(h, Rejected e, now s)]"
    "sends ?s = AList.delete h (sends s)"
    "now ?s = now s" "nextHandle ?s = nextHandle s" "requestTimeout ?s = requestTimeout s"
    using Some by (simp_all add: sendMessageFailed_def Let_def settle_def clearTimeout_def)
  have m: "(h, r) \<in> set (sends s)" using Some by (rule map_of_SomeD)
  have k: "h < nextHandle s" using orderlyD(10)[OF assms m] by simp
  have w: "\<forall>p \<in> set (pendingRequests ?s). snd p \<noteq> h"
  proof
    fix p assume p: "p \<in> set (pendingRequests ?s)"
    show "snd p \<noteq> h"
    proof
      assume "snd p = h"
      then have a: "p \<in> set (pendingRequests s)" "fst p \<noteq> req_id r"
        using p by (auto simp: f AList.delete_eq)
      then obtain d where "(h, fst p, d) \<in> set (timers s)"
        using orderlyD(4)[OF assms a(1)] \<open>snd p = h\<close> by auto
      then have "fst p = req_id r" using orderlyD(11)[OF assms m] by fastforce
      then show False using a by simp
    qed
  qed
  show ?thesis
  proof (rule orderly_remove[OF assms f(1)])
    show "set (pendingRequests ?s) \<subseteq> set (pendingRequests s)"
      unfolding f by (rule set_delete_subset)
    show "distinct (map fst (pendingRequests ?s))"
      unfolding f using orderlyD(1)[OF assms] by (rule AList.distinct_delete)
    show "\<forall>p \<in> set (pendingRequests ?s). snd p \<noteq> h" by (rule w)
    show "fst ` set (settled ?s) \<subseteq> insert h (fst ` set (settled s))"
      unfolding f by auto
    show "set (sends ?s) \<subseteq> set (sends s)" unfolding f by (rule set_delete_subset)
    show "now ?s = now s" "nextHandle ?s = nextHandle s" "requestTimeout ?s = requestTimeout s"
      by (rule f)+
    show "h < nextHandle s" by (rule k)
  qed
qed

lemma orderly_sendMessageDone:
  assumes "orderly s"
  shows "orderly (sendMessageDone h s)"
proof -
  have "set (sends (sendMessageDone h s)) \<subseteq> set (sends s)"
    by (simp add: sendMessageDone_def set_delete_subset)
  then have "\<forall>m \<in> set (sends (sendMessageDone h s)). fst m < nextHandle s
           \<and> (\<forall>x \<in> set (timers s). fst x = fst m \<longrightarrow> fst (snd x) = req_id (snd m))"
    using orderlyD(10,11)[OF assms] by blast
  then show ?thesis
    using assms unfolding orderly_def by (simp add: sendMessageDone_def)
qed

lemma handleResponse_frame:
  "now (handleResponse parse d s) = now s"
  "nextHandle (handleResponse parse d s) = nextHandle s"
  "requestTimeout (handleResponse parse d s) = requestTimeout s"
  "sends (handleResponse parse d s) = sends s"
  "connected (handleResponse parse d s) = connected s"
  by (auto simp: handleResponse_def handleResponse_try_def getPending_def deletePending_def
        settle_def clearTimeout_def Let_def split: option.splits sum.splits json.splits)

lemma handleResponse_effect:
  fixes s :: "'a transport_scheme"
  shows "(timers (handleResponse parse d s) = timers s
          \<and> pendingRequests (handleResponse parse d s) = pendingRequests s
          \<and> settled (handleResponse parse d s) = settled s)
       \<or> (\<exists>k h. map_of (pendingRequests s) k = Some h
             \<and> timers (handleResponse parse d s) = filter (\<lambda>x. fst x \<noteq> h) (timers s)
             \<and> pendingRequests (handleResponse parse d s) = AList.delete k (pendingRequests s)
             \<and> (settled (handleResponse parse d s) = settled s
                \<or> (\<exists>r. settled (handleResponse parse d s) = settled s @ [(h, r, now s)])))"
proof (cases "parse d")
  case None
  then show ?thesis by (simp add: handleResponse_def handleResponse_try_def)
next
  case (Some v)
  show ?thesis
  proof (cases "validateResponse v")
    case (Inl e)
    then show ?thesis using Some by (simp add: handleResponse_def handleResponse_try_def)
  next
    case (Inr resp)
    show ?thesis
    proof (cases "truthy (getProp resp ''id'')")
      case False
      then show ?thesis using Some Inr by (simp add: handleResponse_def handleResponse_try_def)
    next
      case True
      then obtain i where i: "getProp resp ''id'' = Some i"
        by (cases "getProp resp ''id''") auto
      show ?thesis
      proof (cases "getPending s i")
        case None
        then show ?thesis
          using Some Inr True i by (simp add: handleResponse_def handleResponse_try_def)
      next
        case (Some h)
        then obtain k where k: "key_of i = Some k" "map_of (pendingRequests s) k = Some h"
          by (auto simp: getPending_def split: option.splits)
        have t: "timers (handleResponse parse d s) = filter (\<lambda>x. fst x \<noteq> h) (timers s)"
          and p: "pendingRequests (handleResponse parse d s) = AList.delete k (pendingRequests s)"
          and c: "settled (handleResponse parse d s) = settled s
                \<or> (\<exists>r. settled (handleResponse parse d s) = settled s @ [(h, r, now s)])"
          using \<open>parse d = Some v\<close> Inr True i Some k
          by (auto simp: handleResponse_def handleResponse_try_def deletePending_def settle_def
                clearTimeout_def Let_def split: option.splits json.splits)
        show ?thesis using k(2) t p c by blast
      qed
    qed
  qed
qed

lemma orderly_handleResponse:
  assumes "orderly s"
  shows "orderly (handleResponse parse d s)"
proof -
  let ?s = "handleResponse parse d s"
  note e = handleResponse_effect[where s=s and parse=parse and d=d]
  note fr = handleResponse_frame[where s=s and parse=parse and d=d]
  consider (same) "timers ?s = timers s" "pendingRequests ?s = pendingRequests s" "settled ?s = settled s"
    | (hit) k h where "map_of (pendingRequests s) k = Some h"
        "timers ?s = filter (\<lambda>x. fst x \<noteq> h) (timers s)"
        "pendingRequests ?s = AList.delete k (pendingRequests s)"
        "settled ?s = settled s \<or> (\<exists>r. settled ?s = settled s @ [(h, r, now s)])"
    using e by blast
  then show ?thesis
  proof cases
    case same
    then show ?thesis using assms unfolding orderly_def by (simp add: fr)
  next
    case hit
    have m: "(k, h) \<in> set (pendingRequests s)" using hit(1) by (rule map_of_SomeD)
    then obtain dd where "(h, k, dd) \<in> set (timers s)" using orderlyD(4)[OF assms m] by auto
    then have kk: "h < nextHandle s" using orderlyD(5)[OF assms] by fastforce
    have w: "\<forall>p \<in> set (pendingRequests ?s). snd p \<noteq> h"
    proof
      fix p assume p: "p \<in> set (pendingRequests ?s)"
      show "snd p \<noteq> h"
      proof
        assume "snd p = h"
        then have a: "(fst p, h) \<in> set (pendingRequests s)" "fst p \<noteq> k"
          using p by (auto simp: hit(3) AList.delete_eq)
        then show False using table_waiter_unique[OF assms m a(1)] by simp
      qed
    qed
    show ?thesis
    proof (rule orderly_remove[OF assms hit(2)])
      show "set (pendingRequests ?s) \<subseteq> set (pendingRequests s)"
        unfolding hit(3) by (rule set_delete_subset)
      show "distinct (map fst (pendingRequests ?s))"
        unfolding hit(3) using orderlyD(1)[OF assms] by (rule AList.distinct_delete)
      show "\<forall>p \<in> set (pendingRequests ?s). snd p \<noteq> h" by (rule w)
      show "fst ` set (settled ?s) \<subseteq> insert h (fst ` set (settled s))"
        using hit(4) by auto
      show "set (sends ?s) \<subseteq> set (sends s)" by (simp add: fr)
      show "now ?s = now s" "nextHandle ?s = nextHandle s" "requestTimeout ?s = requestTimeout s"
        by (rule fr)+
      show "h < nextHandle s" by (rule kk)
    qed
  qed
qed

lemma orderly_cleanup:
  assumes "orderly s"
  shows "orderly (cleanup s)"
proof -
  let ?s = "cleanup s"
  note f = cleanup_fields[of s]
  have 5: "fst x < nextHandle ?s \<and> now ?s \<le> snd (snd x)
           \<and> snd (snd x) \<le> now ?s + requestTimeout ?s \<and> fst x \<notin> fst ` set (settled ?s)"
    if "x \<in> set (timers ?s)" for x
  proof -
    have x: "x \<in> set (timers s)" "fst x \<notin> snd ` set (pendingRequests s)"
      using that unfolding f(4) by auto
    have "fst x \<notin> fst ` set (settled s)" using orderlyD(8)[OF assms x(1)] .
    then have "fst x \<notin> fst ` set (settled ?s)"
      using x(2) unfolding f(3) by (auto simp: image_iff case_prod_unfold)
    then show ?thesis
      using orderlyD(5,6,7)[OF assms x(1)] by (simp add: f)
  qed
  have 6: "fst c < nextHandle ?s" if "c \<in> set (settled ?s)" for c
  proof -
    have "c \<in> set (settled s) \<or> fst c \<in> snd ` set (pendingRequests s)"
      using that unfolding f(3) by (force simp: case_prod_unfold)
    then show ?thesis
    proof
      assume "c \<in> set (settled s)"
      then show ?thesis using orderlyD(9)[OF assms] by (simp add: f)
    next
      assume "fst c \<in> snd ` set (pendingRequests s)"
      then obtain p where p: "p \<in> set (pendingRequests s)" "fst c = snd p" by blast
      then obtain d where "(snd p, fst p, d) \<in> set (timers s)"
        using orderlyD(4)[OF assms] by blast
      then have "snd p < nextHandle s" using orderlyD(5)[OF assms] by fastforce
      then show ?thesis using p by (simp add: f)
    qed
  qed
  have 7: "fst m < nextHandle ?s
           \<and> (\<forall>x \<in> set (timers ?s). fst x = fst m \<longrightarrow> fst (snd x) = req_id (snd m))"
    if "m \<in> set (sends ?s)" for m
  proof -
    have m: "m \<in> set (sends s)" using that by (simp add: f)
    show ?thesis
      using orderlyD(10)[OF assms m] orderlyD(11)[OF assms m] unfolding f(4) by (simp add: f)
  qed
  have 2: "distinct (map fst (timers ?s))"
    unfolding f(4) using orderlyD(2)[OF assms] by (rule distinct_map_filter)
  have 3: "sorted (map (\<lambda>x. snd (snd x)) (timers ?s))"
    unfolding f(4) using orderlyD(3)[OF assms] by (rule sorted_filter)
  show ?thesis
    unfolding orderly_def using 2 3 5 6 7 by (simp add: f(1))
qed

lemma orderly_advance:
  assumes "orderly s"
  shows "orderly (advance t s)"
proof -
  let ?s = "advance t s"
  let ?due = "filter (\<lambda>(h, i, d). d \<le> t) (timers s)"
  note f = advance_fields[OF assms, of t]
  have 1: "distinct (map fst (pendingRequests ?s))"
    unfolding f(2) using orderlyD(1)[OF assms] by (rule distinct_map_filter)
  have 2: "distinct (map fst (timers ?s))"
    unfolding f(1) using orderlyD(2)[OF assms] by (rule distinct_map_filter)
  have 3: "sorted (map (\<lambda>x. snd (snd x)) (timers ?s))"
    unfolding f(1) using orderlyD(3)[OF assms] by (rule sorted_filter)
  have 4: "\<exists>d. (snd p, fst p, d) \<in> set (timers ?s)" if "p \<in> set (pendingRequests ?s)" for p
  proof -
    have p: "p \<in> set (pendingRequests s)" "fst p \<notin> (\<lambda>x. fst (snd x)) ` set ?due"
      using that unfolding f(2) by auto
    obtain d where d: "(snd p, fst p, d) \<in> set (timers s)"
      using orderlyD(4)[OF assms p(1)] by blast
    have "\<not> d \<le> t"
    proof
      assume "d \<le> t"
      then have "(snd p, fst p, d) \<in> set ?due" using d by simp
      then have "fst p \<in> (\<lambda>x. fst (snd x)) ` set ?due" by force
      then show False using p(2) by simp
    qed
    then show ?thesis unfolding f(1) using d by auto
  qed
  have 5: "fst x < nextHandle ?s \<and> now ?s \<le> snd (snd x)
           \<and> snd (snd x) \<le> now ?s + requestTimeout ?s \<and> fst x \<notin> fst ` set (settled ?s)"
    if "x \<in> set (timers ?s)" for x
  proof -
    have x: "x \<in> set (timers s)" "\<not> snd (snd x) \<le> t"
      using that unfolding f(1) by auto
    have a: "fst x \<notin> fst ` set (settled s)" using orderlyD(8)[OF assms x(1)] .
    have b: "fst x \<notin> fst ` set ?due"
    proof
      assume "fst x \<in> fst ` set ?due"
      then obtain y where y: "y \<in> set (timers s)" "snd (snd y) \<le> t" "fst y = fst x"
        by (auto simp: case_prod_unfold)
      then have "y = x" using distinct_fst_eq[OF orderlyD(2)[OF assms] y(1) x(1)] by simp
      then show False using y(2) x(2) by simp
    qed
    have "fst ` set (settled ?s) = fst ` set (settled s) \<union> fst ` set ?due"
      unfolding f(3) by (force simp: case_prod_unfold image_Un)
    then have "fst x \<notin> fst ` set (settled ?s)" using a b by blast
    then show ?thesis
      using orderlyD(5,6,7)[OF assms x(1)] x(2) by (simp add: f)
  qed
  have 6: "fst c < nextHandle ?s" if "c \<in> set (settled ?s)" for c
  proof -
    have "c \<in> set (settled s) \<or> fst c \<in> fst ` set (timers s)"
      using that unfolding f(3) by (force simp: case_prod_unfold)
    then show ?thesis
    proof
      assume "c \<in> set (settled s)"
      then show ?thesis using orderlyD(9)[OF assms] by (simp add: f)
    next
      assume "fst c \<in> fst ` set (timers s)"
      then obtain y where y: "y \<in> set (timers s)" "fst c = fst y" by blast
      then show ?thesis using orderlyD(5)[OF assms y(1)] by (simp add: f)
    qed
  qed
  have 7: "fst m < nextHandle ?s
           \<and> (\<forall>x \<in> set (timers ?s). fst x = fst m \<longrightarrow> fst (snd x) = req_id (snd m))"
    if "m \<in> set (sends ?s)" for m
  proof -
    have m: "m \<in> set (sends s)" using that by (simp add: f)
    show ?thesis
      using orderlyD(10)[OF assms m] orderlyD(11)[OF assms m] unfolding f(1) by (simp add: f)
  qed
  show ?thesis
    unfolding orderly_def using 1 2 3 4 5 6 7 by blast
qed

lemma orderly_step:
  assumes "orderly s"
  shows "orderly (step parse s e)"
proof (cases e)
  case (SendRequest r)
  show ?thesis
  proof (cases "sendRequest r s")
    case (Inl x)
    then show ?thesis using assms SendRequest by simp
  next
    case (Inr y)
    then obtain h s' where "sendRequest r s = Inr (h, s')" by (cases y) auto
    then show ?thesis using orderly_sendRequest[OF assms] SendRequest by simp
  qed
next
  case (SendMessageFailed h err)
  then show ?thesis using orderly_sendMessageFailed[OF assms] by simp
next
  case (SendMessageDone h)
  then show ?thesis using orderly_sendMessageDone[OF assms] by simp
next
  case (Incoming d)
  then show ?thesis using orderly_handleResponse[OF assms] by simp
next
  case Cleanup
  then show ?thesis using orderly_cleanup[OF assms] by simp
next
  case (Advance t)
  then show ?thesis using orderly_advance[OF assms] by simp
next
  case Established
  then show ?thesis using assms unfolding orderly_def by simp
qed

lemma orderly_run: "orderly s \<Longrightarrow> orderly (run parse s es)"
  unfolding run_def by (induction es arbitrary: s) (simp_all add: orderly_step)

subsection \<open>A waiter is settled once\<close>

lemma handleResponse_miss:
  assumes "matchOf parse d s = None"
  shows "timers (handleResponse parse d s) = timers s"
    and "pendingRequests (handleResponse parse d s) = pendingRequests s"
    and "settled (handleResponse parse d s) = settled s"
  using assms
  by (auto simp: matchOf_def frameKey_def handleResponse_def handleResponse_try_def
        getPending_def
      split: option.splits sum.splits if_splits)

lemma handleResponse_hit:
  assumes "matchOf parse d s = Some (k, h)"
  shows "map_of (pendingRequests s) k = Some h"
    and "timers (handleResponse parse d s) = filter (\<lambda>x. fst x \<noteq> h) (timers s)"
    and "pendingRequests (handleResponse parse d s) = AList.delete k (pendingRequests s)"
    and "settled (handleResponse parse d s) = settled s
         \<or> (\<exists>r. settled (handleResponse parse d s) = settled s @ [(h, r, now s)])"
proof -
  obtain v resp i where a: "parse d = Some v" "validateResponse v = Inr resp"
    "getProp resp ''id'' = Some i" "truthy (Some i)" "key_of i = Some k"
    "map_of (pendingRequests s) k = Some h"
    using assms
    by (auto simp: matchOf_def frameKey_def split: option.splits sum.splits if_splits)
  show "map_of (pendingRequests s) k = Some h" by (rule a(6))
  have g: "getPending s i = Some h" using a(5,6) by (simp add: getPending_def)
  show "timers (handleResponse parse d s) = filter (\<lambda>x. fst x \<noteq> h) (timers s)"
    and "pendingRequests (handleResponse parse d s) = AList.delete k (pendingRequests s)"
    and "settled (handleResponse parse d s) = settled s
         \<or> (\<exists>r. settled (handleResponse parse d s) = settled s @ [(h, r, now s)])"
    using a g
    by (auto simp: handleResponse_def handleResponse_try_def deletePending_def settle_def
          clearTimeout_def Let_def split: option.splits json.splits)
qed



lemma matchOf_key: "matchOf parse d s = Some (k, h) \<Longrightarrow> frameKey parse d = Some k"
  by (auto simp: matchOf_def split: option.splits)


lemma callsOf_append [simp]:
  "callsOf w (s\<lparr>settled := xs @ ys\<rparr>) = callsOf w (s\<lparr>settled := xs\<rparr>) @ map snd (filter (\<lambda>c. fst c = w) ys)"
  by (simp add: callsOf_def)

lemma callsOf_settled:
  "settled s' = settled s @ ys \<Longrightarrow> callsOf w s' = callsOf w s @ map snd (filter (\<lambda>c. fst c = w) ys)"
  by (simp add: callsOf_def)

lemma callsOf_empty: "callsOf w s = [] \<longleftrightarrow> w \<notin> fst ` set (settled s)"
  by (auto simp: callsOf_def filter_empty_conv image_iff)



lemma settled_waiter_left_alone:
  assumes "orderly s" "callsOf w s \<noteq> []"
  shows "w \<notin> snd ` set (pendingRequests s)" "w \<notin> fst ` set (timers s)"
    and "callsOf w (handleResponse parse d s) = callsOf w s"
    and "callsOf w (advance t s) = callsOf w s"
    and "callsOf w (cleanup s) = callsOf w s"
proof -
  have w: "w \<in> fst ` set (settled s)" using assms(2) by (simp add: callsOf_empty)
  show t: "w \<notin> fst ` set (timers s)"
    using orderlyD(8)[OF assms(1)] w by blast
  show p: "w \<notin> snd ` set (pendingRequests s)"
  proof
    assume "w \<in> snd ` set (pendingRequests s)"
    then obtain q where "q \<in> set (pendingRequests s)" "snd q = w" by blast
    then obtain dd where "(w, fst q, dd) \<in> set (timers s)"
      using orderlyD(4)[OF assms(1)] by blast
    then show False using t by force
  qed
  show "callsOf w (handleResponse parse d s) = callsOf w s"
  proof (cases "matchOf parse d s")
    case None
    then show ?thesis using handleResponse_miss(3)[OF None] by (simp add: callsOf_def)
  next
    case (Some m)
    obtain k h where m: "m = (k, h)" by (cases m)
    have "(k, h) \<in> set (pendingRequests s)"
      using handleResponse_hit(1)[OF Some[unfolded m]] by (rule map_of_SomeD)
    then have "h \<noteq> w" using p by force
    then show ?thesis
      using handleResponse_hit(4)[OF Some[unfolded m]] by (auto simp: callsOf_def)
  qed
  show "callsOf w (advance t s) = callsOf w s"
  proof -
    have "filter (\<lambda>c. fst c = w)
            (map (\<lambda>(h, i, d). (h, Rejected (RequestTimedOut i (requestTimeout s)), d))
                 (filter (\<lambda>(h, i, d). d \<le> t) (timers s))) = []"
    proof -
      have "\<forall>x \<in> set (timers s). fst x \<noteq> w" using t by force
      then show ?thesis by (auto simp: filter_empty_conv case_prod_unfold)
    qed
    then show ?thesis
      using callsOf_settled[OF advance_fields(3)[OF assms(1)], of w t] by simp
  qed
  show "callsOf w (cleanup s) = callsOf w s"
  proof -
    have "filter (\<lambda>c. fst c = w)
            (map (\<lambda>(i, h). (h, Rejected TransportDisconnected, now s)) (pendingRequests s)) = []"
    proof -
      have "\<forall>x \<in> set (pendingRequests s). snd x \<noteq> w" using p by force
      then show ?thesis by (auto simp: filter_empty_conv case_prod_unfold)
    qed
    then show ?thesis
      using callsOf_settled[OF cleanup_fields(3), of w s] by simp
  qed
qed




subsection \<open>Timeout\<close>

lemma step_requestTimeout:
  assumes "orderly s"
  shows "requestTimeout (step parse s e) = requestTimeout s"
proof (cases e)
  case (SendRequest r)
  then show ?thesis by (auto simp: sendRequest_def Let_def)
next
  case (SendMessageFailed h err)
  then show ?thesis
    by (auto simp: sendMessageFailed_def settle_def clearTimeout_def Let_def split: option.splits)
next
  case (SendMessageDone h)
  then show ?thesis by (simp add: sendMessageDone_def)
next
  case (Incoming d)
  then show ?thesis by (simp add: handleResponse_frame)
next
  case Cleanup
  then show ?thesis by (simp add: cleanup_fields)
next
  case (Advance t)
  then show ?thesis by (simp add: advance_fields[OF assms])
next
  case Established
  then show ?thesis by simp
qed

lemma armed_unique:
  assumes "orderly s" "(h, i, due) \<in> set (timers s)" "x \<in> set (timers s)" "fst x = h"
  shows "x = (h, i, due)"
  using distinct_fst_eq[OF orderlyD(2)[OF assms(1)] assms(3,2)] assms(4) by simp

lemma armed_survives:
  assumes "orderly s" "(h, i, due) \<in> set (timers s)" "undisturbed parse h i e"
    and "\<forall>t. e = Advance t \<longrightarrow> t < due"
  shows "(h, i, due) \<in> set (timers (step parse s e))"
proof (cases e)
  case (SendRequest r)
  then show ?thesis using assms(2) by (auto simp: sendRequest_def Let_def)
next
  case (SendMessageFailed h' err)
  then have "h' \<noteq> h" using assms(3) by simp
  then show ?thesis
    using assms(2) SendMessageFailed
    by (auto simp: sendMessageFailed_def settle_def clearTimeout_def Let_def split: option.splits)
next
  case (SendMessageDone h')
  then show ?thesis using assms(2) by (simp add: sendMessageDone_def)
next
  case (Incoming d)
  show ?thesis
  proof (cases "matchOf parse d s")
    case None
    then show ?thesis using Incoming assms(2) handleResponse_miss(1)[OF None] by simp
  next
    case (Some m)
    obtain k h' where m: "m = (k, h')" by (cases m)
    note hit = handleResponse_hit[OF Some[unfolded m]]
    have "k \<noteq> i" using matchOf_key[OF Some[unfolded m]] assms(3) Incoming by auto
    have "(k, h') \<in> set (pendingRequests s)" using hit(1) by (rule map_of_SomeD)
    then obtain d' where d': "(h', k, d') \<in> set (timers s)"
      using orderlyD(4)[OF assms(1)] by fastforce
    have "h' \<noteq> h"
    proof
      assume "h' = h"
      then have "(h', k, d') = (h, i, due)" using armed_unique[OF assms(1,2) d'] by simp
      then show False using \<open>k \<noteq> i\<close> by simp
    qed
    then show ?thesis using Incoming assms(2) hit(2) by simp
  qed
next
  case Cleanup
  then show ?thesis using assms(3) by simp
next
  case (Advance t)
  then have "t < due" using assms(4) by simp
  then show ?thesis using Advance assms(2) by (simp add: advance_fields(1)[OF assms(1)])
next
  case Established
  then show ?thesis using assms(2) by simp
qed

lemma filter_key_unique:
  "distinct (map fst xs) \<Longrightarrow> x \<in> set xs \<Longrightarrow> filter (\<lambda>y. fst y = fst x) xs = [x]"
proof (induction xs)
  case Nil
  then show ?case by simp
next
  case (Cons a xs)
  show ?case
  proof (cases "a = x")
    case True
    then have "fst x \<notin> fst ` set xs" using Cons.prems(1) by simp
    then have "\<forall>y \<in> set xs. fst y \<noteq> fst x" by (metis imageI)
    then have "filter (\<lambda>y. fst y = fst x) xs = []" by (simp add: filter_empty_conv)
    then show ?thesis using True by simp
  next
    case False
    then have x: "x \<in> set xs" using Cons.prems(2) by simp
    have "fst a \<notin> fst ` set xs" using Cons.prems(1) by simp
    then have "fst a \<noteq> fst x" using x by (metis imageI)
    then show ?thesis using Cons.IH x Cons.prems(1) by simp
  qed
qed

lemma timer_fires:
  assumes "orderly s" "(h, i, due) \<in> set (timers s)" "due \<le> t"
  shows "callsOf h (advance t s) = [(Rejected (RequestTimedOut i (requestTimeout s)), due)]"
    and "map_of (pendingRequests (advance t s)) i = None"
    and "h \<notin> fst ` set (timers (advance t s))"
proof -
  let ?due = "filter (\<lambda>(h, i, d). d \<le> t) (timers s)"
  have u: "callsOf h s = []"
    using orderlyD(8)[OF assms(1,2)] by (simp add: callsOf_empty)
  have d: "distinct (map fst ?due)"
    using orderlyD(2)[OF assms(1)] by (rule distinct_map_filter)
  have m: "(h, i, due) \<in> set ?due" using assms(2,3) by simp
  have f: "filter (\<lambda>x. fst x = h) ?due = [(h, i, due)]"
    using filter_key_unique[OF d m] by simp
  have "filter (\<lambda>c. fst c = h)
          (map (\<lambda>(h, i, d). (h, Rejected (RequestTimedOut i (requestTimeout s)), d)) ?due)
        = map (\<lambda>(h, i, d). (h, Rejected (RequestTimedOut i (requestTimeout s)), d))
            (filter (\<lambda>x. fst x = h) ?due)"
    unfolding filter_map by (simp add: comp_def case_prod_unfold)
  then show "callsOf h (advance t s) = [(Rejected (RequestTimedOut i (requestTimeout s)), due)]"
    using callsOf_settled[OF advance_fields(3)[OF assms(1)], of h t] u f by simp
  show "map_of (pendingRequests (advance t s)) i = None"
  proof -
    have "i \<in> (\<lambda>x. fst (snd x)) ` set ?due" using m by force
    then have "i \<notin> fst ` set (pendingRequests (advance t s))"
      unfolding advance_fields(2)[OF assms(1)] by force
    then show ?thesis by (simp add: map_of_eq_None_iff)
  qed
  show "h \<notin> fst ` set (timers (advance t s))"
  proof
    assume "h \<in> fst ` set (timers (advance t s))"
    then obtain x where x: "x \<in> set (timers s)" "\<not> snd (snd x) \<le> t" "fst x = h"
      unfolding advance_fields(1)[OF assms(1)] by auto
    then show False using armed_unique[OF assms(1,2) x(1,3)] assms(3) by simp
  qed
qed

lemma fired_stays:
  assumes "orderly s" "callsOf h s = cs" "cs \<noteq> []" "map_of (pendingRequests s) i = None"
    and "undisturbed parse h i e"
  shows "callsOf h (step parse s e) = cs" "map_of (pendingRequests (step parse s e)) i = None"
proof -
  have c: "callsOf h s \<noteq> []" using assms(2,3) by simp
  have "callsOf h (step parse s e) = cs \<and> map_of (pendingRequests (step parse s e)) i = None"
  proof (cases e)
    case (SendRequest r)
    then have "req_id r \<noteq> i" using assms(5) by simp
    then show ?thesis
      using SendRequest assms(2,4)
      by (auto simp: sendRequest_def Let_def callsOf_def AList.update_conv')
  next
    case (SendMessageFailed h' err)
    then have "h' \<noteq> h" using assms(5) by simp
    then show ?thesis
      using SendMessageFailed assms(2,4)
      by (auto simp: sendMessageFailed_def settle_def clearTimeout_def Let_def callsOf_def
            AList.delete_conv' split: option.splits)
  next
    case (SendMessageDone h')
    then show ?thesis using assms(2,4) by (simp add: sendMessageDone_def callsOf_def)
  next
    case (Incoming d)
    have "map_of (pendingRequests (handleResponse parse d s)) i = None"
    proof (cases "matchOf parse d s")
      case None
      then show ?thesis using handleResponse_miss(2)[OF None] assms(4) by simp
    next
      case (Some m)
      obtain k h' where m: "m = (k, h')" by (cases m)
      show ?thesis
        using handleResponse_hit(3)[OF Some[unfolded m]] assms(4)
        by (simp add: AList.delete_conv')
    qed
    then show ?thesis
      using Incoming settled_waiter_left_alone(3)[OF assms(1) c] assms(2) by simp
  next
    case Cleanup
    then show ?thesis using assms(5) by simp
  next
    case (Advance t)
    have "i \<notin> fst ` set (pendingRequests s)"
      using assms(4) by (simp add: map_of_eq_None_iff)
    then have "i \<notin> fst ` set (pendingRequests (advance t s))"
      unfolding advance_fields(2)[OF assms(1)] by auto
    then have "map_of (pendingRequests (advance t s)) i = None"
      by (simp add: map_of_eq_None_iff)
    then show ?thesis
      using Advance settled_waiter_left_alone(4)[OF assms(1) c] assms(2) by simp
  next
    case Established
    then show ?thesis using assms(2,4) by (simp add: callsOf_def)
  qed
  then show "callsOf h (step parse s e) = cs" "map_of (pendingRequests (step parse s e)) i = None"
    by simp_all
qed

lemma undisturbed_run:
  assumes "orderly s"
    and "(h, i, due) \<in> set (timers s)
         \<or> (callsOf h s = [(Rejected (RequestTimedOut i (requestTimeout s)), due)]
            \<and> map_of (pendingRequests s) i = None)"
    and "\<forall>e \<in> set es. undisturbed parse h i e"
  shows "orderly (run parse s es) \<and> requestTimeout (run parse s es) = requestTimeout s
       \<and> ((h, i, due) \<in> set (timers (run parse s es))
          \<or> (callsOf h (run parse s es) = [(Rejected (RequestTimedOut i (requestTimeout s)), due)]
             \<and> map_of (pendingRequests (run parse s es)) i = None))"
  using assms
proof (induction es arbitrary: s)
  case Nil
  then show ?case by (simp add: run_def)
next
  case (Cons e es)
  let ?s = "step parse s e"
  have r: "run parse s (e # es) = run parse ?s es" by (simp add: run_def)
  have o: "orderly ?s" using orderly_step[OF Cons.prems(1)] .
  have T: "requestTimeout ?s = requestTimeout s" using step_requestTimeout[OF Cons.prems(1)] .
  have u: "undisturbed parse h i e" "\<forall>e \<in> set es. undisturbed parse h i e"
    using Cons.prems(3) by simp_all
  have "(h, i, due) \<in> set (timers ?s)
         \<or> (callsOf h ?s = [(Rejected (RequestTimedOut i (requestTimeout ?s)), due)]
            \<and> map_of (pendingRequests ?s) i = None)"
  proof (cases "(h, i, due) \<in> set (timers s)")
    case True
    show ?thesis
    proof (cases "\<exists>t. e = Advance t \<and> due \<le> t")
      case True
      then obtain t where t: "e = Advance t" "due \<le> t" by blast
      show ?thesis
        using timer_fires(1,2)[OF Cons.prems(1) \<open>(h, i, due) \<in> set (timers s)\<close> t(2)] t(1) T
        by simp
    next
      case False
      then have "\<forall>t. e = Advance t \<longrightarrow> t < due" by auto
      then show ?thesis
        using armed_survives[OF Cons.prems(1) True u(1)] by simp
    qed
  next
    case False
    then have f: "callsOf h s = [(Rejected (RequestTimedOut i (requestTimeout s)), due)]"
      "map_of (pendingRequests s) i = None"
      using Cons.prems(2) by simp_all
    show ?thesis
      using fired_stays[OF Cons.prems(1) f(1) _ f(2) u(1)] T by simp
  qed
  then show ?case
    using Cons.IH[OF o _ u(2)] T r by simp
qed

lemma run_requestTimeout:
  "orderly s \<Longrightarrow> requestTimeout (run parse s es) = requestTimeout s"
proof (induction es arbitrary: s)
  case Nil
  then show ?case by (simp add: run_def)
next
  case (Cons e es)
  have "run parse s (e # es) = run parse (step parse s e) es" by (simp add: run_def)
  then show ?case
    using Cons.IH[OF orderly_step[OF Cons.prems]] step_requestTimeout[OF Cons.prems] by simp
qed

lemma armed_run:
  assumes "orderly s" "(h, i, due) \<in> set (timers s)"
    and "\<forall>e \<in> set es. undisturbed parse h i e \<and> (\<forall>t. e = Advance t \<longrightarrow> t < due)"
  shows "(h, i, due) \<in> set (timers (run parse s es))"
  using assms
proof (induction es arbitrary: s)
  case Nil
  then show ?case by (simp add: run_def)
next
  case (Cons e es)
  have r: "run parse s (e # es) = run parse (step parse s e) es" by (simp add: run_def)
  have "(h, i, due) \<in> set (timers (step parse s e))"
    using armed_survives[OF Cons.prems(1,2)] Cons.prems(3) by simp
  then show ?case
    using Cons.IH[OF orderly_step[OF Cons.prems(1)]] Cons.prems(3) r by simp
qed

lemma fireTimers_connected:
  "fireTimers ts (s\<lparr>connected := b\<rparr>) = (fireTimers ts s)\<lparr>connected := b\<rparr>"
proof (induction ts arbitrary: s)
  case Nil
  then show ?case by simp
next
  case (Cons x ts)
  obtain h i d where x: "x = (h, i, d)" by (cases x)
  let ?s = "timerCallback h i (clearTimeout h (s\<lparr>now := max (now s) d\<rparr>))"
  have c: "timerCallback h i (clearTimeout h (s\<lparr>connected := b, now := max (now s) d\<rparr>))
             = ?s\<lparr>connected := b\<rparr>"
    by (simp add: timerCallback_def clearTimeout_def settle_def Let_def)
  show ?case
  proof (cases "h \<in> fst ` set (timers s)")
    case True
    then have "fireTimers (x # ts) (s\<lparr>connected := b\<rparr>) = fireTimers ts (?s\<lparr>connected := b\<rparr>)"
      using c by (simp add: x)
    also have "\<dots> = (fireTimers ts ?s)\<lparr>connected := b\<rparr>" by (rule Cons.IH)
    finally show ?thesis using True by (simp add: x)
  next
    case False
    then show ?thesis using Cons.IH[of s] by (simp add: x)
  qed
qed

lemma advance_connected: "advance t (s\<lparr>connected := b\<rparr>) = (advance t s)\<lparr>connected := b\<rparr>"
  by (simp add: advance_def fireTimers_connected Let_def)

text \<open>
  C3, as the code has it. Take a request sent on a connected transport. If after it no
  response asks for its id, its send does not fail, the transport is not cleaned up and
  no request reuses its id, then once the clock has reached the time of the send plus
  \<^verbatim>\<open>requestTimeout\<close> (30000 ms in a new transport), its \<^verbatim>\<open>reject\<close> has been called exactly
  once, with the timeout error, at that very time, and the table holds nothing under
  its id; before that time no \<^verbatim>\<open>resolve\<close> or \<^verbatim>\<open>reject\<close> of it is called. The expiry of
  timers neither reads nor changes \<^verbatim>\<open>connected\<close>.
\<close>

theorem request_times_out:
  fixes s0 :: "'a transport_scheme"
  assumes "pendingRequests s0 = []" "timers s0 = []" "settled s0 = []" "sends s0 = []"
    and "sendRequest r (run parse s0 before) = Inr (h, s1)"
    and "\<forall>e \<in> set es. undisturbed parse h (req_id r) e"
    and "now (run parse s0 before) + requestTimeout s0 \<le> t"
  shows "callsOf h (run parse s1 (es @ [Advance t]))
           = [(Rejected (RequestTimedOut (req_id r) (requestTimeout s0)),
               now (run parse s0 before) + requestTimeout s0)]
       \<and> map_of (pendingRequests (run parse s1 (es @ [Advance t]))) (req_id r) = None
       \<and> ((\<forall>e \<in> set es. \<forall>t'. e = Advance t' \<longrightarrow> t' < now (run parse s0 before) + requestTimeout s0)
            \<longrightarrow> callsOf h (run parse s1 es) = [])
       \<and> advance t (s\<lparr>connected := b\<rparr>) = (advance t s)\<lparr>connected := b\<rparr>
       \<and> requestTimeout BaseTransport_new = 30000"
proof -
  let ?s = "run parse s0 before"
  let ?due = "now ?s + requestTimeout s0"
  let ?i = "req_id r"
  have o: "orderly ?s" using orderly_run[OF orderly_new[OF assms(1-4)]] .
  have T: "requestTimeout ?s = requestTimeout s0"
    using run_requestTimeout[OF orderly_new[OF assms(1-4)]] .
  have o1: "orderly s1" using orderly_sendRequest[OF o assms(5)] .
  have a: "(h, ?i, ?due) \<in> set (timers s1)" and T1: "requestTimeout s1 = requestTimeout s0"
    using assms(5) T by (auto simp: sendRequest_def Let_def split: if_splits)
  note u = undisturbed_run[OF o1 disjI1[OF a] assms(6)]
  let ?e = "run parse s1 es"
  have oe: "orderly ?e" and Te: "requestTimeout ?e = requestTimeout s0"
    using u T1 by simp_all
  have r: "run parse s1 (es @ [Advance t]) = advance t ?e" by (simp add: run_def)
  have 1: "callsOf h (advance t ?e) = [(Rejected (RequestTimedOut ?i (requestTimeout s0)), ?due)]
           \<and> map_of (pendingRequests (advance t ?e)) ?i = None"
  proof (cases "(h, ?i, ?due) \<in> set (timers ?e)")
    case True
    show ?thesis
      using timer_fires(1,2)[OF oe True assms(7)] Te by simp
  next
    case False
    then have f: "callsOf h ?e = [(Rejected (RequestTimedOut ?i (requestTimeout s0)), ?due)]"
      "map_of (pendingRequests ?e) ?i = None"
      using u T1 by simp_all
    have "undisturbed parse h ?i (Advance t)" by simp
    then show ?thesis
      using fired_stays[OF oe f(1) _ f(2), of parse "Advance t"] by simp
  qed
  have 2: "callsOf h ?e = []"
    if q: "\<forall>e \<in> set es. \<forall>t'. e = Advance t' \<longrightarrow> t' < ?due"
  proof -
    have "(h, ?i, ?due) \<in> set (timers ?e)"
      using armed_run[OF o1 a] assms(6) q by simp
    then show ?thesis using orderlyD(8)[OF oe] by (fastforce simp: callsOf_empty)
  qed
  show ?thesis
    using 1 2 unfolding r by (simp add: advance_connected BaseTransport_new_def)
qed

lemma sent_at_5_eq:
  "sent_at_5 = \<lparr>connected = True, pendingRequests = [], requestTimeout = 30000, timers = [],
     sends = [], nextHandle = 0, settled = [], console = [], now = 5\<rparr>"
  by (simp add: sent_at_5_def run_def advance_def BaseTransport_new_def)

text \<open>
  The theorem at the request of id 1 sent at time 5: with other traffic in between, the
  clock reaching 30005 rejects it with the timeout error, stamped 30005.
\<close>

theorem request_times_out_witness:
  "pendingRequests BaseTransport_new = [] \<and> timers BaseTransport_new = []
   \<and> settled BaseTransport_new = [] \<and> sends BaseTransport_new = []
   \<and> sendRequest request1 sent_at_5 = Inr (0, sent1_at_5)
   \<and> after_sent_at_5 = [SendRequest request2, Incoming text_result7, Advance 100, Established]
   \<and> undisturbed parseSample 0 (req_id request1) (SendRequest request2)
   \<and> undisturbed parseSample 0 (req_id request1) (Incoming text_result7)
   \<and> undisturbed parseSample 0 (req_id request1) (Advance 100)
   \<and> undisturbed parseSample 0 (req_id request1) Established
   \<and> now sent_at_5 + requestTimeout BaseTransport_new \<le> 30005
   \<and> callsOf 0 (run parseSample sent1_at_5 (after_sent_at_5 @ [Advance 30005]))
       = [(Rejected (RequestTimedOut (NumId 1) 30000), 30005)]
   \<and> map_of (pendingRequests (run parseSample sent1_at_5 (after_sent_at_5 @ [Advance 30005])))
        (NumId 1) = None
   \<and> callsOf 0 (run parseSample sent1_at_5 after_sent_at_5) = []"
proof -
  have n: "pendingRequests BaseTransport_new = []" "timers BaseTransport_new = []"
    "settled BaseTransport_new = []" "sends BaseTransport_new = []"
    "requestTimeout BaseTransport_new = 30000"
    by (simp_all add: BaseTransport_new_def)
  have s: "sendRequest request1 (run parseSample BaseTransport_new [Established, Advance 5])
             = Inr (0, sent1_at_5)"
    unfolding sent_at_5_def[symmetric]
    by (simp add: sent1_at_5_def sent_at_5_eq sendRequest_def)
  have i: "req_id request1 = NumId 1"
    by (simp add: request1_def createRequest_def generateRequestId_def)
  have k: "frameKey parseSample text_result7 = Some (NumId 7)"
    by (simp add: frameKey_def samples)
  have u: "\<forall>e \<in> set after_sent_at_5. undisturbed parseSample 0 (req_id request1) e"
    by (simp add: after_sent_at_5_def i k request2_def createRequest_def generateRequestId_def)
  have q: "\<forall>e \<in> set after_sent_at_5. \<forall>t'. e = Advance t' \<longrightarrow>
             t' < now (run parseSample BaseTransport_new [Established, Advance 5])
                  + requestTimeout BaseTransport_new"
    unfolding sent_at_5_def[symmetric] by (simp add: after_sent_at_5_def sent_at_5_eq n)
  have l: "now (run parseSample BaseTransport_new [Established, Advance 5])
             + requestTimeout BaseTransport_new \<le> 30005"
    unfolding sent_at_5_def[symmetric] by (simp add: sent_at_5_eq n)
  note t = request_times_out[OF n(1-4) s u l, where s = sent_at_5 and b = True]
  have 1: "callsOf 0 (run parseSample sent1_at_5 (after_sent_at_5 @ [Advance 30005]))
       = [(Rejected (RequestTimedOut (NumId 1) 30000), 30005)]"
    using t unfolding sent_at_5_def[symmetric] by (simp add: i n sent_at_5_eq)
  have 2: "map_of (pendingRequests (run parseSample sent1_at_5 (after_sent_at_5 @ [Advance 30005])))
        (NumId 1) = None"
    using t by (simp add: i)
  have 3: "callsOf 0 (run parseSample sent1_at_5 after_sent_at_5) = []"
    using t q by blast
  have u': "undisturbed parseSample 0 (req_id request1) (SendRequest request2)"
    "undisturbed parseSample 0 (req_id request1) (Incoming text_result7)"
    "undisturbed parseSample 0 (req_id request1) (Advance 100)"
    "undisturbed parseSample 0 (req_id request1) Established"
    using u by (simp_all add: after_sent_at_5_def)
  show ?thesis
    using n s u' l 1 2 3 unfolding sent_at_5_def[symmetric] by (simp add: after_sent_at_5_def)
qed

text \<open>
  C3 as it is written fails: the request of id 1 is sent on a connected transport and no
  response ever arrives, but the transport is cleaned up at time 10. The request is
  rejected then, with \<^verbatim>\<open>Transport disconnected\<close>; when the clock reaches 30000 the
  transport is not connected and no timeout error is raised.
\<close>

theorem request_times_out_counterexample:
  "callsOf 0 closed_before_deadline = [(Rejected TransportDisconnected, 10)]
   \<and> \<not> connected closed_before_deadline
   \<and> now closed_before_deadline = 30000"
  by (simp add: closed_before_deadline_def run_def advance_def sendRequest_def cleanup_def
      settle_def clearTimeout_def BaseTransport_new_def callsOf_def request1_def
      createRequest_def generateRequestId_def)

subsection \<open>Every waiter is accounted for\<close>

lemma accountedD:
  assumes "accounted s"
  shows "h < nextHandle s \<Longrightarrow> h \<in> fst ` set (settled s) \<or> h \<in> snd ` set (pendingRequests s)"
    and "x \<in> set (timers s) \<Longrightarrow> (fst (snd x), fst x) \<in> set (pendingRequests s)"
    and "m \<in> set (sends s) \<Longrightarrow> p \<in> set (pendingRequests s) \<Longrightarrow> fst p = req_id (snd m)
         \<Longrightarrow> snd p = fst m"
  using assms unfolding accounted_def by blast+

lemma accountedI:
  assumes "\<And>h. h < nextHandle s \<Longrightarrow> h \<in> fst ` set (settled s) \<or> h \<in> snd ` set (pendingRequests s)"
    and "\<And>x. x \<in> set (timers s) \<Longrightarrow> (fst (snd x), fst x) \<in> set (pendingRequests s)"
    and "\<And>m p. m \<in> set (sends s) \<Longrightarrow> p \<in> set (pendingRequests s) \<Longrightarrow> fst p = req_id (snd m)
         \<Longrightarrow> snd p = fst m"
  shows "accounted s"
  using assms unfolding accounted_def by blast

lemma accounted_new:
  "nextHandle s = 0 \<Longrightarrow> timers s = [] \<Longrightarrow> sends s = [] \<Longrightarrow> accounted s"
  by (simp add: accounted_def)

lemma table_entry_unique:
  "distinct (map fst xs) \<Longrightarrow> (k, a) \<in> set xs \<Longrightarrow> (k, b) \<in> set xs \<Longrightarrow> a = b"
  by (meson eq_key_imp_eq_value)

lemma set_delete_table: "set (AList.delete k xs) = {p \<in> set xs. fst p \<noteq> k}"
  by (auto simp: AList.delete_eq)

lemma set_update_fresh:
  "k \<notin> fst ` set xs \<Longrightarrow> set (AList.update k v xs) = insert (k, v) (set xs)"
  by (induction xs) auto

lemma accounted_sendRequest:
  assumes "accounted s" "sendRequest r s = Inr (h, s')"
    and fresh: "req_id r \<notin> fst ` set (pendingRequests s)"
      "req_id r \<notin> (\<lambda>m. req_id (snd m)) ` set (sends s)"
  shows "accounted s'"
proof -
  have h: "h = nextHandle s"
    and f: "timers s' = timers s @ [(h, req_id r, now s + requestTimeout s)]"
      "pendingRequests s' = AList.update (req_id r) h (pendingRequests s)"
      "sends s' = sends s @ [(h, r)]" "settled s' = settled s"
      "nextHandle s' = Suc h"
    using assms(2) by (auto simp: sendRequest_def Let_def split: if_splits)
  have p: "set (pendingRequests s') = insert (req_id r, h) (set (pendingRequests s))"
    using fresh(1) unfolding f(2) by (rule set_update_fresh)
  show ?thesis
  proof (rule accountedI)
    fix w assume "w < nextHandle s'"
    then have "w < nextHandle s \<or> w = h" using h f(5) by auto
    then show "w \<in> fst ` set (settled s') \<or> w \<in> snd ` set (pendingRequests s')"
      using accountedD(1)[OF assms(1), of w] unfolding p f(4) by force
  next
    fix x assume "x \<in> set (timers s')"
    then have "x \<in> set (timers s) \<or> x = (h, req_id r, now s + requestTimeout s)"
      unfolding f(1) by auto
    then show "(fst (snd x), fst x) \<in> set (pendingRequests s')"
      using accountedD(2)[OF assms(1), of x] unfolding p by auto
  next
    fix m q assume a: "m \<in> set (sends s')" "q \<in> set (pendingRequests s')" "fst q = req_id (snd m)"
    have m: "m \<in> set (sends s) \<or> m = (h, r)" using a(1) unfolding f(3) by auto
    have q: "q \<in> set (pendingRequests s) \<or> q = (req_id r, h)" using a(2) unfolding p by auto
    show "snd q = fst m"
    proof (cases "m = (h, r)")
      case True
      then have "\<not> q \<in> set (pendingRequests s)" using fresh(1) a(3) by force
      then show ?thesis using q True by auto
    next
      case False
      then have ms: "m \<in> set (sends s)" using m by simp
      then have "q \<noteq> (req_id r, h)" using fresh(2) a(3) by force
      then show ?thesis using q accountedD(3)[OF assms(1) ms _ a(3)] by blast
    qed
  qed
qed

lemma accounted_sendMessageFailed:
  assumes "accounted s"
  shows "accounted (sendMessageFailed h e s)"
proof (cases "map_of (sends s) h")
  case None
  then show ?thesis using assms by (simp add: sendMessageFailed_def)
next
  case (Some r)
  let ?s = "sendMessageFailed h e s"
  have f: "timers ?s = filter (\<lambda>x. fst x \<noteq> h) (timers s)"
    "pendingRequests ?s = AList.delete (req_id r) (pendingRequests s)"
    "sends ?s = AList.delete h (sends s)"
    "settled ?s = settled s @ [(h, Rejected e, now s)]"
    "nextHandle ?s = nextHandle s"
    using Some by (simp_all add: sendMessageFailed_def settle_def clearTimeout_def)
  have m: "(h, r) \<in> set (sends s)" using Some by (rule map_of_SomeD)
  have own: "snd q = h" if "q \<in> set (pendingRequests s)" "fst q = req_id r" for q
    using accountedD(3)[OF assms m that(1)] that(2) by simp
  show ?thesis
  proof (rule accountedI)
    fix w assume "w < nextHandle ?s"
    then have "w \<in> fst ` set (settled s) \<or> w \<in> snd ` set (pendingRequests s)"
      using accountedD(1)[OF assms, of w] by (simp add: f)
    then show "w \<in> fst ` set (settled ?s) \<or> w \<in> snd ` set (pendingRequests ?s)"
    proof
      assume "w \<in> fst ` set (settled s)"
      then show ?thesis unfolding f(4) by auto
    next
      assume "w \<in> snd ` set (pendingRequests s)"
      then obtain q where q: "q \<in> set (pendingRequests s)" "w = snd q" by blast
      show ?thesis
      proof (cases "fst q = req_id r")
        case True
        then have "w = h" using own q by simp
        then show ?thesis unfolding f(4) by simp
      next
        case False
        then have "q \<in> set (pendingRequests ?s)" using q(1) unfolding f(2) set_delete_table by simp
        then show ?thesis using q(2) by blast
      qed
    qed
  next
    fix x assume "x \<in> set (timers ?s)"
    then have x: "x \<in> set (timers s)" "fst x \<noteq> h" unfolding f(1) by auto
    have q: "(fst (snd x), fst x) \<in> set (pendingRequests s)" using accountedD(2)[OF assms x(1)] .
    have "fst (snd x) \<noteq> req_id r" using own[OF q] x(2) by auto
    then show "(fst (snd x), fst x) \<in> set (pendingRequests ?s)"
      using q unfolding f(2) set_delete_table by simp
  next
    fix m q assume a: "m \<in> set (sends ?s)" "q \<in> set (pendingRequests ?s)" "fst q = req_id (snd m)"
    have "m \<in> set (sends s)" using a(1) unfolding f(3) set_delete_table by simp
    moreover have "q \<in> set (pendingRequests s)" using a(2) unfolding f(2) set_delete_table by simp
    ultimately show "snd q = fst m" using accountedD(3)[OF assms _ _ a(3)] by blast
  qed
qed

lemma accounted_sendMessageDone:
  assumes "accounted s"
  shows "accounted (sendMessageDone h s)"
proof (rule accountedI)
  let ?s = "sendMessageDone h s"
  have f: "timers ?s = timers s" "pendingRequests ?s = pendingRequests s"
    "sends ?s = AList.delete h (sends s)" "settled ?s = settled s" "nextHandle ?s = nextHandle s"
    by (simp_all add: sendMessageDone_def)
  show "w \<in> fst ` set (settled ?s) \<or> w \<in> snd ` set (pendingRequests ?s)" if "w < nextHandle ?s" for w
    using accountedD(1)[OF assms, of w] that by (simp add: f)
  show "(fst (snd x), fst x) \<in> set (pendingRequests ?s)" if "x \<in> set (timers ?s)" for x
    using accountedD(2)[OF assms, of x] that by (simp add: f)
  show "snd q = fst m"
    if "m \<in> set (sends ?s)" "q \<in> set (pendingRequests ?s)" "fst q = req_id (snd m)" for m q
  proof -
    have "m \<in> set (sends s)" using that(1) unfolding f(3) set_delete_table by simp
    then show ?thesis using accountedD(3)[OF assms _ _ that(3)] that(2) unfolding f(2) by blast
  qed
qed

lemma validateResponse_same: "validateResponse v = Inr r \<Longrightarrow> r = v"
  by (cases v) (auto split: if_splits)

lemma handleResponse_hit_settles:
  assumes "matchOf parse d s = Some (k, h)" "\<not> nullError parse d"
  shows "\<exists>r. settled (handleResponse parse d s) = settled s @ [(h, r, now s)]"
proof -
  obtain v resp i where a: "parse d = Some v" "validateResponse v = Inr resp"
    "getProp resp ''id'' = Some i" "truthy (Some i)" "key_of i = Some k"
    "map_of (pendingRequests s) k = Some h"
    using assms(1)
    by (auto simp: matchOf_def frameKey_def split: option.splits sum.splits if_splits)
  have g: "getPending s i = Some h" using a(5,6) by (simp add: getPending_def)
  have n: "getProp resp ''error'' \<noteq> Some JNull"
    using assms(2) a(1) validateResponse_same[OF a(2)] by (simp add: nullError_def)
  show ?thesis
    using a g n
    by (auto simp: handleResponse_def handleResponse_try_def deletePending_def settle_def
          clearTimeout_def isErrorResponse_def Let_def split: option.splits json.splits)
qed

lemma accounted_handleResponse:
  assumes "orderly s" "accounted s" "\<not> nullError parse d"
  shows "accounted (handleResponse parse d s)"
proof (cases "matchOf parse d s")
  case None
  let ?s = "handleResponse parse d s"
  note f = handleResponse_miss[OF None] handleResponse_frame[of parse d s]
  show ?thesis
  proof (rule accountedI)
    show "w \<in> fst ` set (settled ?s) \<or> w \<in> snd ` set (pendingRequests ?s)" if "w < nextHandle ?s" for w
      using accountedD(1)[OF assms(2), of w] that by (simp add: f)
    show "(fst (snd x), fst x) \<in> set (pendingRequests ?s)" if "x \<in> set (timers ?s)" for x
      using accountedD(2)[OF assms(2), of x] that by (simp add: f)
    show "snd q = fst m"
      if "m \<in> set (sends ?s)" "q \<in> set (pendingRequests ?s)" "fst q = req_id (snd m)" for m q
      using accountedD(3)[OF assms(2) _ _ that(3)] that(1,2) by (simp add: f)
  qed
next
  case (Some kh)
  then obtain k h where kh: "matchOf parse d s = Some (k, h)" by (cases kh) auto
  let ?s = "handleResponse parse d s"
  note hit = handleResponse_hit[OF kh]
  note fr = handleResponse_frame[of parse d s]
  obtain r where st: "settled ?s = settled s @ [(h, r, now s)]"
    using handleResponse_hit_settles[OF kh assms(3)] by blast
  have e: "(k, h) \<in> set (pendingRequests s)" using hit(1) by (rule map_of_SomeD)
  have own: "b = h" if "(k, b) \<in> set (pendingRequests s)" for b
    using table_entry_unique[OF orderlyD(1)[OF assms(1)] that e] .
  show ?thesis
  proof (rule accountedI)
    fix w assume "w < nextHandle ?s"
    then have "w \<in> fst ` set (settled s) \<or> w \<in> snd ` set (pendingRequests s)"
      using accountedD(1)[OF assms(2), of w] by (simp add: fr)
    then show "w \<in> fst ` set (settled ?s) \<or> w \<in> snd ` set (pendingRequests ?s)"
    proof
      assume "w \<in> fst ` set (settled s)"
      then show ?thesis unfolding st by auto
    next
      assume "w \<in> snd ` set (pendingRequests s)"
      then obtain q where q: "q \<in> set (pendingRequests s)" "w = snd q" by blast
      show ?thesis
      proof (cases "fst q = k")
        case True
        then have "(k, w) \<in> set (pendingRequests s)" using q by (cases q) auto
        then have "w = h" by (rule own)
        then show ?thesis unfolding st by simp
      next
        case False
        then have "q \<in> set (pendingRequests ?s)" using q(1) unfolding hit(3) set_delete_table by simp
        then show ?thesis using q(2) by blast
      qed
    qed
  next
    fix x assume "x \<in> set (timers ?s)"
    then have x: "x \<in> set (timers s)" "fst x \<noteq> h" unfolding hit(2) by auto
    have q: "(fst (snd x), fst x) \<in> set (pendingRequests s)" using accountedD(2)[OF assms(2) x(1)] .
    have "fst (snd x) \<noteq> k" using own[of "fst x"] q x(2) by auto
    then show "(fst (snd x), fst x) \<in> set (pendingRequests ?s)"
      using q unfolding hit(3) set_delete_table by simp
  next
    fix m q assume a: "m \<in> set (sends ?s)" "q \<in> set (pendingRequests ?s)" "fst q = req_id (snd m)"
    have "m \<in> set (sends s)" using a(1) by (simp add: fr)
    moreover have "q \<in> set (pendingRequests s)" using a(2) unfolding hit(3) set_delete_table by simp
    ultimately show "snd q = fst m" using accountedD(3)[OF assms(2) _ _ a(3)] by blast
  qed
qed

lemma accounted_cleanup:
  assumes "accounted s"
  shows "accounted (cleanup s)"
proof (rule accountedI)
  let ?s = "cleanup s"
  note f = cleanup_fields[of s]
  show "w \<in> fst ` set (settled ?s) \<or> w \<in> snd ` set (pendingRequests ?s)" if "w < nextHandle ?s" for w
  proof -
    have "w \<in> fst ` set (settled s) \<or> w \<in> snd ` set (pendingRequests s)"
      using accountedD(1)[OF assms, of w] that by (simp add: f)
    then have "w \<in> fst ` set (settled ?s)" unfolding f(3) by (force simp: case_prod_unfold)
    then show ?thesis ..
  qed
  show "(fst (snd x), fst x) \<in> set (pendingRequests ?s)" if "x \<in> set (timers ?s)" for x
  proof -
    have x: "x \<in> set (timers s)" "fst x \<notin> snd ` set (pendingRequests s)"
      using that unfolding f(4) by auto
    have "(fst (snd x), fst x) \<in> set (pendingRequests s)" using accountedD(2)[OF assms x(1)] .
    then have "fst x \<in> snd ` set (pendingRequests s)" by force
    then show ?thesis using x(2) by simp
  qed
  show "snd q = fst m"
    if "m \<in> set (sends ?s)" "q \<in> set (pendingRequests ?s)" "fst q = req_id (snd m)" for m q
    using that(2) by (simp add: f)
qed

lemma accounted_advance:
  assumes "orderly s" "accounted s"
  shows "accounted (advance t s)"
proof (rule accountedI)
  let ?s = "advance t s"
  let ?due = "filter (\<lambda>(h, i, d). d \<le> t) (timers s)"
  note f = advance_fields[OF assms(1), of t]
  have fired: "fst x = snd q"
    if "x \<in> set (timers s)" "q \<in> set (pendingRequests s)" "fst q = fst (snd x)" for x q
  proof -
    have "(fst (snd x), fst x) \<in> set (pendingRequests s)" using accountedD(2)[OF assms(2) that(1)] .
    moreover have "(fst (snd x), snd q) \<in> set (pendingRequests s)"
      using that(2,3) by (metis prod.collapse)
    ultimately show ?thesis using table_entry_unique[OF orderlyD(1)[OF assms(1)]] by blast
  qed
  show "w \<in> fst ` set (settled ?s) \<or> w \<in> snd ` set (pendingRequests ?s)" if "w < nextHandle ?s" for w
  proof -
    have "w \<in> fst ` set (settled s) \<or> w \<in> snd ` set (pendingRequests s)"
      using accountedD(1)[OF assms(2), of w] that by (simp add: f)
    then show ?thesis
    proof
      assume "w \<in> fst ` set (settled s)"
      then show ?thesis unfolding f(3) by auto
    next
      assume "w \<in> snd ` set (pendingRequests s)"
      then obtain q where q: "q \<in> set (pendingRequests s)" "w = snd q" by blast
      show ?thesis
      proof (cases "fst q \<in> (\<lambda>x. fst (snd x)) ` set ?due")
        case True
        then obtain x where x: "x \<in> set ?due" "fst q = fst (snd x)" by blast
        have "x \<in> set (timers s)" using x(1) by simp
        then have "fst x = w" using fired[OF _ q(1) x(2)] q(2) by simp
        then have "w \<in> fst ` set ?due" using x(1) by blast
        then have "w \<in> fst ` set (settled ?s)" unfolding f(3) by (force simp: case_prod_unfold)
        then show ?thesis ..
      next
        case False
        then have "q \<in> set (pendingRequests ?s)" using q(1) unfolding f(2) by simp
        then show ?thesis using q(2) by blast
      qed
    qed
  qed
  show "(fst (snd x), fst x) \<in> set (pendingRequests ?s)" if "x \<in> set (timers ?s)" for x
  proof -
    have x: "x \<in> set (timers s)" "\<not> snd (snd x) \<le> t" using that unfolding f(1) by auto
    have q: "(fst (snd x), fst x) \<in> set (pendingRequests s)" using accountedD(2)[OF assms(2) x(1)] .
    have "fst (snd x) \<notin> (\<lambda>x. fst (snd x)) ` set ?due"
    proof
      assume "fst (snd x) \<in> (\<lambda>x. fst (snd x)) ` set ?due"
      then obtain y where y: "y \<in> set ?due" "fst (snd x) = fst (snd y)" by blast
      have ys: "y \<in> set (timers s)" "snd (snd y) \<le> t" using y(1) by auto
      have yx: "fst y = fst x" using fired[OF ys(1) q] y(2) by simp
      then have "(fst x, snd y) \<in> set (timers s)" using ys(1) by (metis prod.collapse)
      moreover have "(fst x, snd x) \<in> set (timers s)" using x(1) by simp
      ultimately have "snd y = snd x"
        using table_entry_unique[OF orderlyD(2)[OF assms(1)]] by blast
      then have "y = x" using yx by (simp add: prod_eq_iff)
      then show False using ys(2) x(2) by simp
    qed
    then show ?thesis using q unfolding f(2) by simp
  qed
  show "snd q = fst m"
    if "m \<in> set (sends ?s)" "q \<in> set (pendingRequests ?s)" "fst q = req_id (snd m)" for m q
  proof -
    have "m \<in> set (sends s)" using that(1) by (simp add: f)
    moreover have "q \<in> set (pendingRequests s)" using that(2) unfolding f(2) by simp
    ultimately show ?thesis using accountedD(3)[OF assms(2) _ _ that(3)] by blast
  qed
qed

lemma accounted_step:
  assumes "orderly s" "accounted s" "proper parse s e"
  shows "accounted (step parse s e)"
proof (cases e)
  case (SendRequest r)
  show ?thesis
  proof (cases "sendRequest r s")
    case (Inl x)
    then show ?thesis using assms SendRequest by simp
  next
    case (Inr y)
    then obtain h s' where y: "sendRequest r s = Inr (h, s')" by (cases y) auto
    have "accounted s'"
      using accounted_sendRequest[OF assms(2) y] assms(3) SendRequest by simp
    then show ?thesis using y SendRequest by simp
  qed
next
  case (SendMessageFailed h err)
  then show ?thesis using accounted_sendMessageFailed[OF assms(2)] by simp
next
  case (SendMessageDone h)
  then show ?thesis using accounted_sendMessageDone[OF assms(2)] by simp
next
  case (Incoming d)
  then show ?thesis using accounted_handleResponse[OF assms(1,2)] assms(3) by simp
next
  case Cleanup
  then show ?thesis using accounted_cleanup[OF assms(2)] by simp
next
  case (Advance t)
  then show ?thesis using accounted_advance[OF assms(1,2)] by simp
next
  case Established
  have "accounted (s\<lparr>connected := True\<rparr>)"
    using assms(2) by (simp add: accounted_def)
  then show ?thesis using Established by simp
qed

lemma accounted_run:
  "orderly s \<Longrightarrow> accounted s \<Longrightarrow> properRun parse s es \<Longrightarrow> accounted (run parse s es)"
proof (induction es arbitrary: s)
  case Nil
  then show ?case by (simp add: run_def)
next
  case (Cons e es)
  have "accounted (run parse (step parse s e) es)"
    using Cons.IH[OF orderly_step[OF Cons.prems(1)] accounted_step[OF Cons.prems(1,2)]]
      Cons.prems(3) by simp
  then show ?case by (simp add: run_def)
qed

text \<open>
  On a transport used in this way every promise that \<^verbatim>\<open>sendRequest\<close> ever returned is
  settled once \<^verbatim>\<open>cleanup\<close> has run.
\<close>

lemma cleanup_unblocks_every_caller:
  assumes "properRun parse BaseTransport_new es" "h < nextHandle (run parse BaseTransport_new es)"
  shows "promiseOf h (cleanup (run parse BaseTransport_new es)) \<noteq> None"
proof -
  let ?s = "run parse BaseTransport_new es"
  have o: "orderly BaseTransport_new" by (rule orderly_new) (simp_all add: BaseTransport_new_def)
  have a: "accounted BaseTransport_new" by (rule accounted_new) (simp_all add: BaseTransport_new_def)
  have "accounted ?s" using accounted_run[OF o a assms(1)] .
  then have "h \<in> fst ` set (settled ?s) \<or> h \<in> snd ` set (pendingRequests ?s)"
    using accountedD(1) assms(2) by blast
  then show ?thesis using settled_unblocked[of h ?s] cleanup_unblocks[of _ h ?s] by force
qed

text \<open>
  The two requests of the sample transport were sent properly. A response with a
  \<^verbatim>\<open>null\<close> error is not proper, and the waiter it is matched with is then out of the
  table with no call of its \<^verbatim>\<open>resolve\<close> or \<^verbatim>\<open>reject\<close>: \<^verbatim>\<open>cleanup\<close> does not reach it.
\<close>

lemma waiting12_proper:
  "properRun parseSample BaseTransport_new [Established, SendRequest request1, SendRequest request2]"
  by (simp add: request1_def request2_def base_defs)

lemma null_error_not_accounted:
  "\<not> proper parseSample waiting1 (Incoming text_null_error1)
   \<and> \<not> accounted (step parseSample waiting1 (Incoming text_null_error1))
   \<and> promiseOf 0 (cleanup (step parseSample waiting1 (Incoming text_null_error1))) = None"
  by (simp add: accounted_def nullError_def promiseOf_def callsOf_def waiting1_eq samples base_defs)

subsection \<open>SseTransport.connect\<close>

lemma sse_more_fields:
  fixes s s' :: SseTransport
  assumes "transport.more s' = transport.more s"
  shows "eventSource s' = eventSource s" "connectCalls s' = connectCalls s"
    "sse_url s' = sse_url s" "messageEndpoint s' = messageEndpoint s"
  using assms by (cases s; cases s'; simp)+

lemma handleResponse_more: "transport.more (handleResponse parse d s) = transport.more s"
  by (auto simp: handleResponse_def handleResponse_try_def getPending_def deletePending_def
        settle_def clearTimeout_def Let_def split: option.splits sum.splits json.splits)

lemmas sse_kept = sse_more_fields[OF handleResponse_more] sse_more_fields[OF cleanup_fields(6)]

lemma updateCall_fields:
  "connectCalls (updateCall k f s)
     = (if k < length (connectCalls s) then (connectCalls s)[k := f (connectCalls s ! k)]
        else connectCalls s)"
  "eventSource (updateCall k f s) = eventSource s"
  "sse_url (updateCall k f s) = sse_url s"
  "messageEndpoint (updateCall k f s) = messageEndpoint s"
  "connected (updateCall k f s) = connected s"
  "length (connectCalls (updateCall k f s)) = length (connectCalls s)"
  by (simp_all add: updateCall_def)

lemma closeEventSource_fields:
  "length (connectCalls (closeEventSource s)) = length (connectCalls s)"
  "eventSource (closeEventSource s) = None"
  "sse_url (closeEventSource s) = sse_url s"
  "messageEndpoint (closeEventSource s) = messageEndpoint s"
  "connected (closeEventSource s) = connected s"
  "pendingRequests (closeEventSource s) = pendingRequests s"
  "settled (closeEventSource s) = settled s"
  "now (closeEventSource s) = now s"
  "timers (closeEventSource s) = timers s"
  by (simp_all add: closeEventSource_def updateCall_def split: option.splits)

lemma closeEventSource_call:
  assumes "k < length (connectCalls s)"
  shows "connectPromise (connectCalls (closeEventSource s) ! k) = connectPromise (connectCalls s ! k)"
    and "receivedEvent (connectCalls (closeEventSource s) ! k) = receivedEvent (connectCalls s ! k)"
    and "sourceOpen (connectCalls (closeEventSource s) ! k)
           = (sourceOpen (connectCalls s ! k) \<and> eventSource s \<noteq> Some k)"
  using assms
  by (auto simp: closeEventSource_def updateCall_def nth_list_update split: option.splits)

text \<open>The length of the list of calls, and what a step leaves of an earlier call.\<close>

lemma sse_step_length:
  "length (connectCalls (sse_step parse s a))
     = (case a of Connect thrown \<Rightarrow> Suc (length (connectCalls s)) | _ \<Rightarrow> length (connectCalls s))"
proof (cases a)
  case (Connect thrown)
  then show ?thesis by (simp add: SseTransport_connect_def split: option.splits)
next
  case (Source k ev)
  then show ?thesis
    by (cases ev)
       (simp_all add: updateCall_fields sse_kept closeEventSource_fields)
next
  case Disconnect
  then show ?thesis
    by (simp add: SseTransport_disconnect_def sse_kept closeEventSource_fields)
qed

lemma sse_step_length_le: "length (connectCalls s) \<le> length (connectCalls (sse_step parse s a))"
  by (simp add: sse_step_length split: sseAction.splits)

lemma sse_run_length_le: "length (connectCalls s) \<le> length (connectCalls (sse_run parse s acts))"
  unfolding sse_run_def
proof (induction acts arbitrary: s)
  case Nil
  then show ?case by simp
next
  case (Cons a acts)
  show ?case using Cons[of "sse_step parse s a"] sse_step_length_le[of s parse a] by simp
qed

lemma sse_url_step: "sse_url (sse_step parse s a) = sse_url s"
proof (cases a)
  case (Connect thrown)
  then show ?thesis by (simp add: SseTransport_connect_def split: option.splits)
next
  case (Source k ev)
  then show ?thesis
    by (cases ev) (simp_all add: updateCall_fields sse_kept closeEventSource_fields)
next
  case Disconnect
  then show ?thesis by (simp add: SseTransport_disconnect_def sse_kept closeEventSource_fields)
qed

text \<open>
  One step and the promise of call \<open>k\<close>: it is left as it was, unless it was pending,
  the step is an event of the open \<^verbatim>\<open>EventSource\<close> of call \<open>k\<close> itself, and that event is
  \<open>endpoint\<close>, or an error while the transport is not connected and call \<open>k\<close> has received
  no event.
\<close>

lemma sse_step_promise:
  assumes "k < length (connectCalls s)"
  shows "promiseOfCall k (sse_step parse s a) = promiseOfCall k s
       \<or> (promiseOfCall k s = Unsettled \<and> delivers k s
          \<and> ((\<exists>d. a = Source k (EndpointEvent d)
                  \<and> promiseOfCall k (sse_step parse s a) = Fulfilled
                  \<and> connected (sse_step parse s a)
                  \<and> messageEndpoint (sse_step parse s a) = Some d)
             \<or> (\<exists>err. a = Source k (ErrorEvent err)
                  \<and> \<not> connected s \<and> \<not> receivedEvent (connectCalls s ! k)
                  \<and> promiseOfCall k (sse_step parse s a)
                      = RejectedWith (connectErrorOf (sse_url s) err))))"
proof (cases a)
  case (Connect thrown)
  then show ?thesis
    using assms
    by (simp add: promiseOfCall_def SseTransport_connect_def nth_append split: option.splits)
next
  case Disconnect
  then show ?thesis
    using assms closeEventSource_call(1)[OF assms]
    by (simp add: promiseOfCall_def SseTransport_disconnect_def sse_kept)
next
  case (Source j ev)
  show ?thesis
  proof (cases "delivers j s")
    case False
    then show ?thesis using Source by (cases ev) simp_all
  next
    case True
    then have j: "j < length (connectCalls s)" by (simp add: delivers_def)
    show ?thesis
    proof (cases ev)
      case OpenEvent
      then show ?thesis using Source by simp
    next
      case (MessageEvent m)
      then show ?thesis
        using Source True assms j
        by (simp add: promiseOfCall_def sse_kept updateCall_fields nth_list_update)
    next
      case (EndpointEvent d)
      show ?thesis
      proof (cases "j = k")
        case False
        then show ?thesis
          using Source True assms j EndpointEvent
          by (simp add: promiseOfCall_def updateCall_fields nth_list_update)
      next
        case jk: True
        show ?thesis
        proof (cases "promiseOfCall k s = Unsettled")
          case False
          then show ?thesis
            using Source True assms jk EndpointEvent
            by (simp add: promiseOfCall_def updateCall_fields resolvePromise_def)
        next
          case u: True
          have "promiseOfCall k (sse_step parse s a) = Fulfilled"
            "connected (sse_step parse s a)" "messageEndpoint (sse_step parse s a) = Some d"
            using Source True assms jk EndpointEvent u
            by (simp_all add: promiseOfCall_def updateCall_fields resolvePromise_def)
          then show ?thesis using u True jk Source EndpointEvent by simp
        qed
      qed
    next
      case (ErrorEvent err)
      show ?thesis
      proof (cases "\<not> connected s \<and> \<not> receivedEvent (connectCalls s ! j)")
        case False
        then show ?thesis
          using Source True assms ErrorEvent
          by (auto simp: promiseOfCall_def sse_kept)
      next
        case r: True
        have st: "sse_step parse s a
                    = updateCall j
                        (\<lambda>c. c\<lparr>connectPromise :=
                                  rejectPromise (connectErrorOf (sse_url s) err) (connectPromise c)\<rparr>)
                        (closeEventSource s)"
          using Source True ErrorEvent r by simp
        show ?thesis
        proof (cases "j = k")
          case False
          then show ?thesis
            using assms j closeEventSource_call(1)[OF assms]
            by (simp add: st promiseOfCall_def updateCall_fields closeEventSource_fields
                  nth_list_update)
        next
          case jk: True
          show ?thesis
          proof (cases "promiseOfCall k s = Unsettled")
            case False
            then show ?thesis
              using assms jk closeEventSource_call(1)[OF assms]
              by (simp add: st promiseOfCall_def updateCall_fields closeEventSource_fields
                    rejectPromise_def)
          next
            case u: True
            have "promiseOfCall k (sse_step parse s a)
                    = RejectedWith (connectErrorOf (sse_url s) err)"
              using assms jk u closeEventSource_call(1)[OF assms]
              by (simp add: st promiseOfCall_def updateCall_fields closeEventSource_fields
                    rejectPromise_def)
            then show ?thesis using u True jk r Source ErrorEvent by simp
          qed
        qed
      qed
    qed
  qed
qed

lemma sse_step_settled:
  assumes "k < length (connectCalls s)" "promiseOfCall k s \<noteq> Unsettled"
  shows "promiseOfCall k (sse_step parse s a) = promiseOfCall k s"
  using sse_step_promise[OF assms(1), of parse a] assms(2) by blast

lemma sse_run_settled:
  assumes "k < length (connectCalls s)" "promiseOfCall k s \<noteq> Unsettled"
  shows "promiseOfCall k (sse_run parse s acts) = promiseOfCall k s"
  using assms unfolding sse_run_def
proof (induction acts arbitrary: s)
  case Nil
  then show ?case by simp
next
  case (Cons a acts)
  have l: "k < length (connectCalls (sse_step parse s a))"
    using Cons.prems(1) sse_step_length_le[of s parse a] by simp
  have p: "promiseOfCall k (sse_step parse s a) = promiseOfCall k s"
    using sse_step_settled[OF Cons.prems] .
  show ?case using Cons.IH[OF l] p Cons.prems(2) by simp
qed

text \<open>A closed \<^verbatim>\<open>EventSource\<close> stays closed, and the promise of its call is left as it is.\<close>

lemma sse_step_closed:
  assumes "k < length (connectCalls s)" "\<not> delivers k s"
  shows "\<not> delivers k (sse_step parse s a)"
    and "promiseOfCall k (sse_step parse s a) = promiseOfCall k s"
proof -
  show "promiseOfCall k (sse_step parse s a) = promiseOfCall k s"
    using sse_step_promise[OF assms(1), of parse a] assms(2) by blast
  have c: "\<not> sourceOpen (connectCalls s ! k)" using assms by (simp add: delivers_def)
  show "\<not> delivers k (sse_step parse s a)"
  proof (cases a)
    case (Connect thrown)
    then show ?thesis
      using assms c
      by (simp add: delivers_def SseTransport_connect_def nth_append split: option.splits)
  next
    case Disconnect
    then show ?thesis
      using assms c closeEventSource_call(3)[OF assms(1)]
      by (simp add: delivers_def SseTransport_disconnect_def sse_kept closeEventSource_fields)
  next
    case (Source j ev)
    show ?thesis
    proof (cases "delivers j s")
      case False
      then show ?thesis using Source assms(2) by (cases ev) simp_all
    next
      case True
      then have j: "j < length (connectCalls s)" and jk: "j \<noteq> k"
        using assms(2) by (auto simp: delivers_def)
      show ?thesis
        using Source assms(1) c j jk closeEventSource_call(3)[OF assms(1)]
        by (cases ev)
           (simp_all add: delivers_def updateCall_fields sse_kept closeEventSource_fields
              nth_list_update)
    qed
  qed
qed

lemma sse_run_closed:
  assumes "k < length (connectCalls s)" "\<not> delivers k s"
  shows "\<not> delivers k (sse_run parse s acts) \<and> promiseOfCall k (sse_run parse s acts) = promiseOfCall k s"
  using assms unfolding sse_run_def
proof (induction acts arbitrary: s)
  case Nil
  then show ?case by simp
next
  case (Cons a acts)
  have l: "k < length (connectCalls (sse_step parse s a))"
    using Cons.prems(1) sse_step_length_le[of s parse a] by simp
  show ?case
    using Cons.IH[OF l sse_step_closed(1)[OF Cons.prems]] sse_step_closed(2)[OF Cons.prems]
    by simp
qed

text \<open>The events of the \<^verbatim>\<open>EventSource\<close> of one call, with nothing else running.\<close>

lemma sse_on_message:
  assumes "delivers k s"
  shows "delivers k (SseTransport_on parse k s (MessageEvent m))"
    and "receivedEvent (connectCalls (SseTransport_on parse k s (MessageEvent m)) ! k)"
    and "promiseOfCall k (SseTransport_on parse k s (MessageEvent m)) = promiseOfCall k s"
    and "connected (SseTransport_on parse k s (MessageEvent m)) = connected s"
  using assms
  by (simp_all add: delivers_def promiseOfCall_def sse_kept updateCall_fields
        handleResponse_frame)

lemma sse_on_late_error:
  assumes "delivers k s" "connected s \<or> receivedEvent (connectCalls s ! k)"
  shows "delivers k (SseTransport_on parse k s (ErrorEvent err))"
    and "receivedEvent (connectCalls (SseTransport_on parse k s (ErrorEvent err)) ! k)
           = receivedEvent (connectCalls s ! k)"
    and "promiseOfCall k (SseTransport_on parse k s (ErrorEvent err)) = promiseOfCall k s"
    and "\<not> connected (SseTransport_on parse k s (ErrorEvent err))"
  using assms
  by (auto simp: delivers_def promiseOfCall_def sse_kept cleanup_fields)

lemma sse_on_endpoint:
  assumes "delivers k s"
  shows "promiseOfCall k (SseTransport_on parse k s (EndpointEvent d))
           = resolvePromise (promiseOfCall k s)"
    and "connected (SseTransport_on parse k s (EndpointEvent d))"
    and "messageEndpoint (SseTransport_on parse k s (EndpointEvent d)) = Some d"
    and "receivedEvent (connectCalls (SseTransport_on parse k s (EndpointEvent d)) ! k)"
  using assms
  by (simp_all add: delivers_def promiseOfCall_def updateCall_fields)

lemma sse_on_early_error:
  assumes "delivers k s" "\<not> connected s" "\<not> receivedEvent (connectCalls s ! k)"
  shows "promiseOfCall k (SseTransport_on parse k s (ErrorEvent err))
           = rejectPromise (connectErrorOf (sse_url s) err) (promiseOfCall k s)"
    and "eventSource (SseTransport_on parse k s (ErrorEvent err)) = None"
    and "\<not> connected (SseTransport_on parse k s (ErrorEvent err))"
proof -
  have k: "k < length (connectCalls s)" using assms(1) by (simp add: delivers_def)
  show "promiseOfCall k (SseTransport_on parse k s (ErrorEvent err))
           = rejectPromise (connectErrorOf (sse_url s) err) (promiseOfCall k s)"
    using assms k closeEventSource_call(1)[OF k]
    by (simp add: promiseOfCall_def updateCall_fields closeEventSource_fields)
  show "eventSource (SseTransport_on parse k s (ErrorEvent err)) = None"
    "\<not> connected (SseTransport_on parse k s (ErrorEvent err))"
    using assms by (simp_all add: updateCall_fields closeEventSource_fields)
qed

lemma sse_run_Cons: "sse_run parse s (a # acts) = sse_run parse (sse_step parse s a) acts"
  by (simp add: sse_run_def)

lemma sse_run_after_message:
  assumes "delivers k s" "receivedEvent (connectCalls s ! k)" "promiseOfCall k s = Unsettled"
  shows "promiseOfCall k (sse_run parse s (map (Source k) evs)) = settlesAs url (firstEndpoint evs)"
  using assms
proof (induction evs arbitrary: s)
  case Nil
  then show ?case by (simp add: sse_run_def settlesAs_def)
next
  case (Cons ev evs)
  let ?s = "SseTransport_on parse k s ev"
  have k: "k < length (connectCalls s)" using Cons.prems(1) by (simp add: delivers_def)
  have st: "sse_run parse s (map (Source k) (ev # evs)) = sse_run parse ?s (map (Source k) evs)"
    by (simp add: sse_run_Cons)
  show ?case
  proof (cases ev)
    case (EndpointEvent d)
    have f: "promiseOfCall k ?s = Fulfilled"
      using sse_on_endpoint(1)[OF Cons.prems(1)] Cons.prems(3) EndpointEvent
      by (simp add: resolvePromise_def)
    have l: "k < length (connectCalls ?s)"
      using k sse_step_length_le[of s parse "Source k ev"] by simp
    show ?thesis
      using sse_run_settled[OF l, of parse "map (Source k) evs"] f EndpointEvent
      unfolding st by (simp add: settlesAs_def)
  next
    case OpenEvent
    then show ?thesis using Cons.IH[OF Cons.prems] unfolding st by simp
  next
    case (MessageEvent m)
    show ?thesis
      using Cons.IH[of ?s] sse_on_message[OF Cons.prems(1), of parse m] Cons.prems(3) MessageEvent
      unfolding st by simp
  next
    case (ErrorEvent err)
    have r: "connected s \<or> receivedEvent (connectCalls s ! k)" using Cons.prems(2) by simp
    show ?thesis
      using Cons.IH[of ?s] sse_on_late_error[OF Cons.prems(1) r, of parse err] Cons.prems(2,3)
        ErrorEvent
      unfolding st by simp
  qed
qed

lemma sse_run_fresh:
  assumes "delivers k s" "\<not> connected s" "\<not> receivedEvent (connectCalls s ! k)"
    "promiseOfCall k s = Unsettled"
  shows "promiseOfCall k (sse_run parse s (map (Source k) evs))
           = settlesAs (sse_url s) (decisive evs)"
  using assms
proof (induction evs arbitrary: s)
  case Nil
  then show ?case by (simp add: sse_run_def settlesAs_def)
next
  case (Cons ev evs)
  let ?s = "SseTransport_on parse k s ev"
  have k: "k < length (connectCalls s)" using Cons.prems(1) by (simp add: delivers_def)
  have l: "k < length (connectCalls ?s)"
    using k sse_step_length_le[of s parse "Source k ev"] by simp
  have st: "sse_run parse s (map (Source k) (ev # evs)) = sse_run parse ?s (map (Source k) evs)"
    by (simp add: sse_run_Cons)
  show ?case
  proof (cases ev)
    case (EndpointEvent d)
    have f: "promiseOfCall k ?s = Fulfilled"
      using sse_on_endpoint(1)[OF Cons.prems(1)] Cons.prems(4) EndpointEvent
      by (simp add: resolvePromise_def)
    show ?thesis
      using sse_run_settled[OF l, of parse "map (Source k) evs"] f EndpointEvent
      unfolding st by (simp add: settlesAs_def)
  next
    case OpenEvent
    then show ?thesis using Cons.IH[OF Cons.prems] unfolding st by simp
  next
    case (MessageEvent m)
    show ?thesis
      using sse_run_after_message[of k ?s parse evs "sse_url s"]
        sse_on_message[OF Cons.prems(1), of parse m] Cons.prems(4) MessageEvent
      unfolding st by simp
  next
    case (ErrorEvent err)
    have f: "promiseOfCall k ?s = RejectedWith (connectErrorOf (sse_url s) err)"
      using sse_on_early_error(1)[OF Cons.prems(1,2,3)] Cons.prems(4) ErrorEvent
      by (simp add: rejectPromise_def)
    show ?thesis
      using sse_run_settled[OF l, of parse "map (Source k) evs"] f ErrorEvent
      unfolding st by (simp add: settlesAs_def)
  qed
qed

lemma SseTransport_connect_call:
  "length (connectCalls (SseTransport_connect thrown s)) = Suc (length (connectCalls s))"
  "connected (SseTransport_connect thrown s) = connected s"
  "sse_url (SseTransport_connect thrown s) = sse_url s"
  "connectCalls (SseTransport_connect thrown s) ! length (connectCalls s)
     = (if connected s then \<lparr>sourceOpen = False, receivedEvent = False, connectPromise = Fulfilled\<rparr>
        else case thrown of
               Some e \<Rightarrow> \<lparr>sourceOpen = False, receivedEvent = False, connectPromise = RejectedWith e\<rparr>
             | None \<Rightarrow> \<lparr>sourceOpen = True, receivedEvent = False, connectPromise = Unsettled\<rparr>)"
  by (simp_all add: SseTransport_connect_def split: option.splits)

text \<open>
  C9, as the code has it. A \<^verbatim>\<open>connect()\<close> on a transport that is already connected is
  fulfilled at once and opens nothing. Otherwise, when the \<^verbatim>\<open>EventSource\<close> constructor
  throws, the promise is rejected with what it threw, whatever runs afterwards; and when
  the \<^verbatim>\<open>EventSource\<close> is opened and only its own events follow, the promise is fulfilled
  by the first \<open>endpoint\<close> event, rejected by an error event that comes before any
  \<open>endpoint\<close> or message event, and pending as long as neither has come (an error after
  a message event does not settle it). Whatever runs on the transport, in any state: a
  step changes the promise of a call only when that promise is pending and the step is
  an event of the call's own open \<^verbatim>\<open>EventSource\<close>, either \<open>endpoint\<close>, which fulfils it,
  records the endpoint and marks the transport connected, or an error while the
  transport is not connected and the call has received no event, which rejects it; a
  settled promise stays as it is; and once the \<^verbatim>\<open>EventSource\<close> of a call is closed, by
  \<^verbatim>\<open>disconnect()\<close> or by the error listener of another call, its promise stays as it is,
  pending if it was pending.
\<close>

theorem sse_connect_settles:
  "(connected s \<longrightarrow>
      SseTransport_connect thrown s
        = s\<lparr>connectCalls := connectCalls s
               @ [\<lparr>sourceOpen = False, receivedEvent = False, connectPromise = Fulfilled\<rparr>]\<rparr>)
   \<and> (\<not> connected s \<longrightarrow>
        (\<forall>e. thrown = Some e \<longrightarrow>
           promiseOfCall (length (connectCalls s))
             (sse_run parse (SseTransport_connect thrown s) acts) = RejectedWith e)
        \<and> (thrown = None \<longrightarrow>
             eventSource (SseTransport_connect thrown s) = Some (length (connectCalls s))
             \<and> promiseOfCall (length (connectCalls s))
                 (sse_run parse (SseTransport_connect thrown s)
                    (map (Source (length (connectCalls s))) evs))
               = settlesAs (sse_url s) (decisive evs)))
   \<and> (k < length (connectCalls s) \<longrightarrow>
        promiseOfCall k (sse_step parse s a) = promiseOfCall k s
        \<or> (promiseOfCall k s = Unsettled \<and> delivers k s
           \<and> ((\<exists>d. a = Source k (EndpointEvent d)
                   \<and> promiseOfCall k (sse_step parse s a) = Fulfilled
                   \<and> connected (sse_step parse s a)
                   \<and> messageEndpoint (sse_step parse s a) = Some d)
              \<or> (\<exists>err. a = Source k (ErrorEvent err)
                   \<and> \<not> connected s \<and> \<not> receivedEvent (connectCalls s ! k)
                   \<and> promiseOfCall k (sse_step parse s a)
                       = RejectedWith (connectErrorOf (sse_url s) err)))))
   \<and> (delivers k s \<longrightarrow>
        connected (SseTransport_on parse k s (EndpointEvent d))
        \<and> messageEndpoint (SseTransport_on parse k s (EndpointEvent d)) = Some d
        \<and> promiseOfCall k (SseTransport_on parse k s (EndpointEvent d))
            = resolvePromise (promiseOfCall k s)
        \<and> (\<not> connected s \<and> \<not> receivedEvent (connectCalls s ! k) \<longrightarrow>
             promiseOfCall k (SseTransport_on parse k s (ErrorEvent err'))
               = rejectPromise (connectErrorOf (sse_url s) err') (promiseOfCall k s)))
   \<and> (k < length (connectCalls s) \<and> promiseOfCall k s \<noteq> Unsettled \<longrightarrow>
        promiseOfCall k (sse_run parse s acts) = promiseOfCall k s)
   \<and> (k < length (connectCalls s) \<and> \<not> delivers k s \<longrightarrow>
        \<not> delivers k (sse_run parse s acts)
        \<and> promiseOfCall k (sse_run parse s acts) = promiseOfCall k s)"
proof -
  let ?n = "length (connectCalls s)"
  let ?c = "SseTransport_connect thrown s"
  note cc = SseTransport_connect_call[of thrown s]
  have 1: "promiseOfCall ?n (sse_run parse ?c acts) = RejectedWith e"
    if "\<not> connected s" "thrown = Some e" for e
  proof -
    have "promiseOfCall ?n ?c = RejectedWith e"
      using that cc(4) by (simp add: promiseOfCall_def)
    then show ?thesis
      using sse_run_settled[of ?n ?c parse acts] cc(1) by simp
  qed
  have 2: "promiseOfCall ?n (sse_run parse ?c (map (Source ?n) evs)) = settlesAs (sse_url s) (decisive evs)"
    "eventSource ?c = Some ?n"
    if "\<not> connected s" "thrown = None"
  proof -
    have "delivers ?n ?c" "\<not> connected ?c" "\<not> receivedEvent (connectCalls ?c ! ?n)"
      "promiseOfCall ?n ?c = Unsettled"
      using that cc by (simp_all add: delivers_def promiseOfCall_def)
    then show "promiseOfCall ?n (sse_run parse ?c (map (Source ?n) evs))
                 = settlesAs (sse_url s) (decisive evs)"
      using sse_run_fresh[of ?n ?c parse evs] cc(3) by simp
    show "eventSource ?c = Some ?n"
      using that by (simp add: SseTransport_connect_def)
  qed
  have 0: "connected s \<Longrightarrow>
      ?c = s\<lparr>connectCalls := connectCalls s
               @ [\<lparr>sourceOpen = False, receivedEvent = False, connectPromise = Fulfilled\<rparr>]\<rparr>"
    by (simp add: SseTransport_connect_def)
  note 3 = sse_step_promise[of k s parse a]
  note 4 = sse_on_endpoint[of k s parse d] sse_on_early_error(1)[of k s parse err']
  note 5 = sse_run_settled[of k s parse acts]
  note 6 = sse_run_closed[of k s parse acts]
  show ?thesis
    using 0 1 2 3 4 5 6 by blast
qed

lemmas sse_defs = sse_run_def SseTransport_connect_def SseTransport_new_def BaseTransport_new_def
  transport.defs SseTransport.defs updateCall_def closeEventSource_def delivers_def
  promiseOfCall_def resolvePromise_def rejectPromise_def connectErrorOf_def
  SseTransport_disconnect_def

text \<open>An event-stream transport whose first \<^verbatim>\<open>connect()\<close> is waiting for its events.\<close>

lemma sse_connecting_eq:
  "SseTransport_connect None (SseTransport_new ''http://localhost:3000/sse'')
     = \<lparr>connected = False, pendingRequests = [], requestTimeout = 30000, timers = [],
        sends = [], nextHandle = 0, settled = [], console = [], now = 0,
        sse_url = ''http://localhost:3000/sse'', eventSource = Some 0,
        messageEndpoint = None,
        connectCalls = [\<lparr>sourceOpen = True, receivedEvent = False, connectPromise = Unsettled\<rparr>]\<rparr>"
  by (simp add: sse_defs)

lemma sse_established_eq:
  "sse_established
     = \<lparr>connected = True, pendingRequests = [], requestTimeout = 30000, timers = [],
        sends = [], nextHandle = 0, settled = [], console = [], now = 0,
        sse_url = ''http://localhost:3000/sse'', eventSource = Some 0,
        messageEndpoint = Some ''/messages?sessionId=1'',
        connectCalls = [\<lparr>sourceOpen = True, receivedEvent = True, connectPromise = Fulfilled\<rparr>]\<rparr>"
  by (simp add: sse_established_def sse_defs)

text \<open>
  The theorem at a new transport: the \<open>endpoint\<close> event fulfils the promise of the first
  call, an error at once rejects it, a constructor that throws rejects it; a second
  \<^verbatim>\<open>connect()\<close> on the connected transport is fulfilled; the fulfilled promise stays
  fulfilled; and after a \<^verbatim>\<open>disconnect()\<close> before any event the promise stays pending.
\<close>

theorem sse_connect_settles_witness:
  "\<not> connected (SseTransport_new ''http://localhost:3000/sse'')
   \<and> length (connectCalls (SseTransport_new ''http://localhost:3000/sse'')) = 0
   \<and> promiseOfCall 0 sse_established = Fulfilled
   \<and> promiseOfCall 0 (sse_run parseSample (SseTransport_new ''http://localhost:3000/sse'')
        [Connect None, Source 0 (ErrorEvent (JObj [(''status'', JNum 404)]))])
       = RejectedWith (FailedToConnectSse ''http://localhost:3000/sse'' (Some (JNum 404)) None)
   \<and> promiseOfCall 0 (sse_run parseSample (SseTransport_new ''http://localhost:3000/sse'')
        [Connect (Some TypeError), Source 0 (EndpointEvent ''/m'')])
       = RejectedWith TypeError
   \<and> connected sse_established
   \<and> messageEndpoint sse_established = Some ''/messages?sessionId=1''
   \<and> promiseOfCall 1 (SseTransport_connect None sse_established) = Fulfilled
   \<and> delivers 0 (SseTransport_connect None (SseTransport_new ''http://localhost:3000/sse''))
   \<and> promiseOfCall 0 (sse_run parseSample sse_established
        [Source 0 (ErrorEvent JNull), Disconnect, Connect None]) = Fulfilled
   \<and> \<not> delivers 0 (SseTransport_disconnect
          (SseTransport_connect None (SseTransport_new ''http://localhost:3000/sse'')))
   \<and> promiseOfCall 0 (sse_run parseSample
        (SseTransport_disconnect
          (SseTransport_connect None (SseTransport_new ''http://localhost:3000/sse'')))
        [Source 0 (EndpointEvent ''/m'')]) = Unsettled"
proof -
  let ?url = "''http://localhost:3000/sse''"
  let ?new = "SseTransport_new ?url"
  let ?ing = "SseTransport_connect None ?new"
  let ?off = "SseTransport_disconnect ?ing"
  have n: "\<not> connected ?new" "sse_url ?new = ?url" "length (connectCalls ?new) = 0"
    by (simp_all add: sse_defs)
  have c: "connected sse_established" "length (connectCalls sse_established) = 1"
    "promiseOfCall 0 sse_established = Fulfilled"
    "messageEndpoint sse_established = Some ''/messages?sessionId=1''"
    by (simp_all add: sse_established_eq promiseOfCall_def)
  have g: "delivers 0 ?ing" "\<not> connected ?ing" "\<not> receivedEvent (connectCalls ?ing ! 0)"
    "promiseOfCall 0 ?ing = Unsettled" "sse_url ?ing = ?url"
    by (simp_all add: sse_connecting_eq delivers_def promiseOfCall_def)
  have o: "\<not> delivers 0 ?off" "0 < length (connectCalls ?off)" "promiseOfCall 0 ?off = Unsettled"
    by (simp_all add: sse_connecting_eq sse_defs sse_kept cleanup_fields)
  note t1 = sse_connect_settles[where s = ?new and thrown = None and parse = parseSample
              and evs = "[OpenEvent, EndpointEvent ''/messages?sessionId=1'']"]
  note t2 = sse_connect_settles[where s = ?new and thrown = "Some TypeError" and parse = parseSample
              and acts = "[Source 0 (EndpointEvent ''/m'')]"]
  note t3 = sse_connect_settles[where s = sse_established and thrown = None and k = 0
              and parse = parseSample
              and acts = "[Source 0 (ErrorEvent JNull), Disconnect, Connect None]"]
  note t4 = sse_connect_settles[where s = ?ing and k = 0 and parse = parseSample
              and err' = "JObj [(''status'', JNum 404)]"]
  note t5 = sse_connect_settles[where s = ?off and k = 0 and parse = parseSample
              and acts = "[Source 0 (EndpointEvent ''/m'')]"]
  have "promiseOfCall 0 (sse_run parseSample ?ing
          (map (Source 0) [OpenEvent, EndpointEvent ''/messages?sessionId=1'']))
        = settlesAs ?url (decisive [OpenEvent, EndpointEvent ''/messages?sessionId=1''])"
    using t1 n by simp
  then have 1: "promiseOfCall 0 sse_established = Fulfilled"
    by (simp add: settlesAs_def sse_run_def sse_established_def)
  have "promiseOfCall 0 (SseTransport_on parseSample 0 ?ing (ErrorEvent (JObj [(''status'', JNum 404)])))
        = rejectPromise (connectErrorOf ?url (JObj [(''status'', JNum 404)])) (promiseOfCall 0 ?ing)"
    using t4 g by simp
  then have 2: "promiseOfCall 0 (sse_run parseSample ?new
        [Connect None, Source 0 (ErrorEvent (JObj [(''status'', JNum 404)]))])
       = RejectedWith (FailedToConnectSse ?url (Some (JNum 404)) None)"
    using g(4) by (simp add: sse_run_def rejectPromise_def connectErrorOf_def)
  have "promiseOfCall 0 (sse_run parseSample (SseTransport_connect (Some TypeError) ?new)
          [Source 0 (EndpointEvent ''/m'')]) = RejectedWith TypeError"
    using t2 n by simp
  then have 3: "promiseOfCall 0 (sse_run parseSample ?new
        [Connect (Some TypeError), Source 0 (EndpointEvent ''/m'')]) = RejectedWith TypeError"
    by (simp add: sse_run_def)
  have "SseTransport_connect None sse_established
          = sse_established\<lparr>connectCalls := connectCalls sse_established
               @ [\<lparr>sourceOpen = False, receivedEvent = False, connectPromise = Fulfilled\<rparr>]\<rparr>"
    using t3 c(1) by blast
  then have 4: "promiseOfCall 1 (SseTransport_connect None sse_established) = Fulfilled"
    using c(2) by (simp add: promiseOfCall_def nth_append)
  have 5: "promiseOfCall 0 (sse_run parseSample sse_established
        [Source 0 (ErrorEvent JNull), Disconnect, Connect None]) = Fulfilled"
    using t3 c by simp
  have 6: "promiseOfCall 0 (sse_run parseSample ?off [Source 0 (EndpointEvent ''/m'')]) = Unsettled"
    using t5 o by simp
  show ?thesis
    using n(1,3) 1 2 3 c(1,4) 4 g(1) 5 o(1) 6 by simp
qed

text \<open>
  C9 as it is written fails in three ways. A \<^verbatim>\<open>connect()\<close> on a connected transport is
  fulfilled though no event at all has come to it. After a message event, an error that
  comes before any \<open>endpoint\<close> event (the transport is not connected) does not reject the
  promise: it stays pending. And when \<^verbatim>\<open>connect()\<close> is called twice before any event,
  an error of the first \<^verbatim>\<open>EventSource\<close> rejects the first promise and closes the second
  \<^verbatim>\<open>EventSource\<close>, whose promise then stays pending whatever the server sends.
\<close>

theorem sse_connect_counterexample:
  "connected sse_established
   \<and> promiseOfCall 1 (sse_run parseSample sse_established [Connect None]) = Fulfilled
   \<and> \<not> connected (sse_run parseSample (SseTransport_new ''http://localhost:3000/sse'')
          [Connect None, Source 0 (MessageEvent text_result7)])
   \<and> \<not> connected (sse_run parseSample (SseTransport_new ''http://localhost:3000/sse'')
          [Connect None, Source 0 (MessageEvent text_result7), Source 0 (ErrorEvent (JObj []))])
   \<and> promiseOfCall 0 (sse_run parseSample (SseTransport_new ''http://localhost:3000/sse'')
          [Connect None, Source 0 (MessageEvent text_result7), Source 0 (ErrorEvent (JObj []))])
       = Unsettled
   \<and> promiseOfCall 0 (sse_run parseSample (SseTransport_new ''http://localhost:3000/sse'')
          [Connect None, Connect None, Source 0 (ErrorEvent (JObj []))])
       = RejectedWith (FailedToConnectSse ''http://localhost:3000/sse'' None None)
   \<and> \<not> delivers 1 (sse_run parseSample (SseTransport_new ''http://localhost:3000/sse'')
          [Connect None, Connect None, Source 0 (ErrorEvent (JObj []))])
   \<and> promiseOfCall 1 (sse_run parseSample (SseTransport_new ''http://localhost:3000/sse'')
          [Connect None, Connect None, Source 0 (ErrorEvent (JObj [])),
           Source 1 (EndpointEvent ''/messages?sessionId=2'')])
       = Unsettled
   \<and> \<not> connected (sse_run parseSample (SseTransport_new ''http://localhost:3000/sse'')
          [Connect None, Connect None, Source 0 (ErrorEvent (JObj [])),
           Source 1 (EndpointEvent ''/messages?sessionId=2'')])"
  by (simp add: sse_established_eq sse_defs samples base_defs sse_kept cleanup_fields)

subsection \<open>disconnect\<close>












subsection \<open>connect when a server fails\<close>

lemma connectServer_fails_keeps:
  assumes "\<not> connectSucceeds net (n, cfg)"
  shows "snd (connectServer n cfg (net n) reg) = reg"
  using assms
  by (auto simp: connectServer_def connectSucceeds_def split: sum.splits connectOutcome.splits)

lemma connectServer_other:
  assumes "m \<noteq> n"
  shows "map_of (snd (connectServer m cfg out reg)) n = map_of reg n"
  using assms
  by (auto simp: connectServer_def AList.update_conv' split: sum.splits connectOutcome.splits)

lemma connectAll_keeps_entry:
  assumes "\<forall>cfg. (n, cfg) \<in> set entries \<longrightarrow> \<not> connectSucceeds net (n, cfg)"
  shows "map_of (snd (connectAll entries net reg)) n = map_of reg n"
  using assms
proof (induction entries arbitrary: reg)
  case Nil
  then show ?case by simp
next
  case (Cons e es)
  obtain m cfg where e: "e = (m, cfg)" by (cases e)
  have "map_of (snd (connectServer m cfg (net m) reg)) n = map_of reg n"
  proof (cases "m = n")
    case True
    then have "\<not> connectSucceeds net (m, cfg)" using Cons.prems e by simp
    then show ?thesis using connectServer_fails_keeps by simp
  next
    case False
    then show ?thesis by (rule connectServer_other)
  qed
  moreover have "map_of (snd (connectAll es net (snd (connectServer m cfg (net m) reg)))) n
                   = map_of (snd (connectServer m cfg (net m) reg)) n"
    using Cons.IH Cons.prems by simp
  ultimately show ?case by (simp add: e case_prod_unfold Let_def)
qed

text \<open>
  C6, as the code has it. When at least one configured server fails to connect, the
  promise of \<^verbatim>\<open>connect()\<close> is rejected. Every server that connected is registered
  afterwards and \<^verbatim>\<open>isServerConnected\<close> is true for it; the names registered are those
  registered before and those that connected; and, the names of the configuration being
  distinct, the call leaves the registry entry of a server that failed as it was: absent
  when it was absent, and the transport of the earlier \<^verbatim>\<open>connect()\<close> when there was one.
\<close>

theorem connect_fails_and_keeps_the_connected:
  assumes "\<exists>entry \<in> set entries. connectFails net entry"
  shows "(\<exists>e. fst (McpClient_connect (Inr (Some entries)) net c) = RejectedWith e)
       \<and> (\<forall>(n, cfg) \<in> set entries. connectSucceeds net (n, cfg) \<longrightarrow>
            n \<in> set (getConnectedServers (snd (McpClient_connect (Inr (Some entries)) net c)))
            \<and> isServerConnected (snd (McpClient_connect (Inr (Some entries)) net c)) n)
       \<and> set (getConnectedServers (snd (McpClient_connect (Inr (Some entries)) net c)))
           = set (getConnectedServers c)
             \<union> {n. \<exists>cfg. (n, cfg) \<in> set entries \<and> connectSucceeds net (n, cfg)}
       \<and> (distinct (map fst entries) \<longrightarrow>
            (\<forall>(n, cfg) \<in> set entries.
               connectFails net (n, cfg) \<longrightarrow>
               map_of (servers (snd (McpClient_connect (Inr (Some entries)) net c))) n
                 = map_of (servers c) n
               \<and> (n \<in> set (getConnectedServers (snd (McpClient_connect (Inr (Some entries)) net c)))
                    \<longleftrightarrow> n \<in> set (getConnectedServers c))
               \<and> isServerConnected (snd (McpClient_connect (Inr (Some entries)) net c)) n
                   = isServerConnected c n))"
proof -
  let ?c = "snd (McpClient_connect (Inr (Some entries)) net c)"
  have ne: "entries \<noteq> []" using assms by auto
  have reg: "servers ?c = snd (connectAll entries net (servers c))"
    and pr: "fst (McpClient_connect (Inr (Some entries)) net c)
               = promiseAll (fst (connectAll entries net (servers c)))"
    using ne by (simp_all add: McpClient_connect_def case_prod_unfold Let_def)
  obtain n cfg where f: "(n, cfg) \<in> set entries" "connectFails net (n, cfg)"
    using assms by auto
  obtain e where "fst (connectServer n cfg (net n) []) = RejectedWith e"
    using connectFails_rejects[OF f(2)] by blast
  then have "RejectedWith e \<in> set (fst (connectAll entries net (servers c)))"
    using f(1) by (force simp: connectAll_promises)
  then have 1: "\<exists>e. fst (McpClient_connect (Inr (Some entries)) net c) = RejectedWith e"
    using promiseAll_rejected pr by simp
  have keys: "set (getConnectedServers ?c)
           = set (getConnectedServers c)
             \<union> {n. \<exists>cfg. (n, cfg) \<in> set entries \<and> connectSucceeds net (n, cfg)}"
    using connectAll_keys[of entries net "servers c"] by (simp add: getConnectedServers_def reg)
  have 2: "n \<in> set (getConnectedServers ?c) \<and> isServerConnected ?c n"
    if a: "(n, cfg) \<in> set entries" "connectSucceeds net (n, cfg)" for n cfg
  proof -
    obtain t where "map_of (servers ?c) n = Some t" "connected t"
      using connectAll_connected[OF a, of "servers c"] reg by auto
    then have "isServerConnected ?c n"
      by (simp add: isServerConnected_def isConnected_def)
    moreover have "n \<in> set (getConnectedServers ?c)"
      using keys a by blast
    ultimately show ?thesis by simp
  qed
  have 3: "map_of (servers ?c) n = map_of (servers c) n
           \<and> (n \<in> set (getConnectedServers ?c) \<longleftrightarrow> n \<in> set (getConnectedServers c))
           \<and> isServerConnected ?c n = isServerConnected c n"
    if d: "distinct (map fst entries)" and m: "(n, cfg) \<in> set entries"
      and x: "connectFails net (n, cfg)" for n cfg
  proof -
    have u: "cfg' = cfg" if b: "(n, cfg') \<in> set entries" for cfg'
      using d m b by (meson eq_key_imp_eq_value)
    have nx: "\<not> connectSucceeds net (n, cfg)"
      using x by (auto simp: connectFails_def connectSucceeds_def split: sum.splits)
    have "\<forall>cfg'. (n, cfg') \<in> set entries \<longrightarrow> \<not> connectSucceeds net (n, cfg')"
      using u nx by blast
    then have k: "map_of (servers ?c) n = map_of (servers c) n"
      using connectAll_keeps_entry[of n entries net "servers c"] reg by simp
    have "(n \<in> set (getConnectedServers ?c)) = (n \<in> set (getConnectedServers c))"
      using keys u nx by auto
    then show ?thesis using k by (simp add: isServerConnected_def)
  qed
  show ?thesis
    using 1 2 3 keys by blast
qed

text \<open>
  The theorem at a configuration of three servers, taken in the order in which their
  connects end: the entry of \<open>c\<close> is not a valid configuration, so \<^verbatim>\<open>createTransport\<close>
  throws at once; then \<open>a\<close> connects; then the process of \<open>b\<close> cannot be spawned.
\<close>

theorem connect_fails_and_keeps_the_connected_witness:
  "(''b'', config_b) \<in> set entries_cab \<and> connectFails net_b_down (''b'', config_b)
   \<and> connectFails net_b_down (''c'', config_c) \<and> connectSucceeds net_b_down (''a'', config_a)
   \<and> distinct (map fst entries_cab)
   \<and> fst (McpClient_connect (Inr (Some entries_cab)) net_b_down McpClient_new)
       = RejectedWith InvalidServerConfiguration
   \<and> getConnectedServers client_cab = [''a'']
   \<and> isServerConnected client_cab ''a''
   \<and> map_of (servers client_cab) ''b'' = None
   \<and> map_of (servers client_cab) ''c'' = None
   \<and> ''b'' \<notin> set (getConnectedServers client_cab)
   \<and> ''c'' \<notin> set (getConnectedServers client_cab)
   \<and> \<not> isServerConnected client_cab ''b''"
proof -
  have m: "(''a'', config_a) \<in> set entries_cab" "(''b'', config_b) \<in> set entries_cab"
    "(''c'', config_c) \<in> set entries_cab" "distinct (map fst entries_cab)"
    by (simp_all add: entries_cab_def)
  have f: "connectFails net_b_down (''b'', config_b)" "connectFails net_b_down (''c'', config_c)"
    "connectSucceeds net_b_down (''a'', config_a)"
    by (simp_all add: connectFails_def connectSucceeds_def net_b_down_def config_a_def
        config_b_def config_c_def createTransport_def given_def)
  have h: "\<exists>entry \<in> set entries_cab. connectFails net_b_down entry"
    using m(2) f(1) by blast
  have o: "map_of (servers McpClient_new) ''b'' = None" "map_of (servers McpClient_new) ''c'' = None"
    "''b'' \<notin> set (getConnectedServers McpClient_new)"
    "''c'' \<notin> set (getConnectedServers McpClient_new)"
    "\<not> isServerConnected McpClient_new ''b''"
    by (simp_all add: getConnectedServers_def McpClient_new_def isServerConnected_def)
  note t = connect_fails_and_keeps_the_connected[OF h, of McpClient_new]
  have 1: "fst (McpClient_connect (Inr (Some entries_cab)) net_b_down McpClient_new)
            = RejectedWith InvalidServerConfiguration"
    by (simp add: entries_cab_def client_defs net_b_down_def config_a_def config_b_def
          config_c_def)
  have 2: "isServerConnected client_cab ''a''"
    using t m(1) f(3) unfolding client_cab_def by blast
  have b: "map_of (servers client_cab) ''b'' = map_of (servers McpClient_new) ''b''
           \<and> (''b'' \<in> set (getConnectedServers client_cab)
                \<longleftrightarrow> ''b'' \<in> set (getConnectedServers McpClient_new))
           \<and> isServerConnected client_cab ''b'' = isServerConnected McpClient_new ''b''"
    using t m(2,4) f(1) unfolding client_cab_def by blast
  have c: "map_of (servers client_cab) ''c'' = map_of (servers McpClient_new) ''c''
           \<and> (''c'' \<in> set (getConnectedServers client_cab)
                \<longleftrightarrow> ''c'' \<in> set (getConnectedServers McpClient_new))"
    using t m(3,4) f(2) unfolding client_cab_def by blast
  have 4: "getConnectedServers client_cab = [''a'']"
    by (simp add: client_cab_def entries_cab_def client_defs getConnectedServers_def
        net_b_down_def config_a_def config_b_def config_c_def)
  show ?thesis
    using m f 1 2 b c o 4 by simp
qed

text \<open>
  C6 as it is written fails when \<^verbatim>\<open>connect()\<close> is called again: \<^verbatim>\<open>connect()\<close> never
  clears the registry, so a server that connected the first time and fails the second
  time is still registered, with the transport of the first time, and
  \<^verbatim>\<open>isServerConnected\<close> is true for it.
\<close>

theorem connect_retry_counterexample:
  "getConnectedServers client_ab = [''a'', ''b'']
   \<and> connectFails net_b_down (''b'', config_b)
   \<and> fst client_ab_retried = RejectedWith (IOError ''spawn npx ENOENT'')
   \<and> getConnectedServers (snd client_ab_retried) = [''a'', ''b'']
   \<and> map_of (servers (snd client_ab_retried)) ''b'' = Some transport_b
   \<and> isServerConnected (snd client_ab_retried) ''b''"
  by (simp add: client_ab_retried_def client_ab_eq client_defs getConnectedServers_def
        isServerConnected_def isConnected_def net_b_down_def config_a_def config_b_def
        connectFails_def transport_a_def transport_b_def)

subsection \<open>The end of a call\<close>

lemma callSettled_cases:
  "callSettled m (Rejected e) = Inl e"
  "truthy (getProp response ''error'') \<Longrightarrow>
     \<exists>msg. callSettled m (Resolved response) = Inl (CallFailed m msg)"
  "\<not> truthy (getProp response ''error'') \<Longrightarrow>
     callSettled m (Resolved response) = Inr (getProp response ''result'')"
  by (simp_all add: callSettled_def)

lemma callSettled_sample:
  "callSettled ''tools/call'' (Resolved tools_response)
     = Inr (Some (JObj [(''tools'', JArr [JObj [(''name'', JStr ''x'')]])]))
   \<and> callSettled ''tools/call'' (Rejected TransportDisconnected) = Inl TransportDisconnected
   \<and> callSettled ''tools/call'' (Resolved error1)
       = Inl (CallFailed ''tools/call'' (Some (JStr ''no'')))"
  by (simp add: callSettled_def tools_response_def error1_def)

end
